theory Spec2Isabelle
  imports Complex_Main
begin

section \<open>Python values and exceptions\<close>

text \<open>
  The values that travel through the cache and the HTTP bodies are the JSON-like Python
  values: \<open>None\<close>, booleans, unbounded integers, strings, lists and dictionaries with
  string keys. A dictionary is an association list read with \<open>map_of\<close>, as
  \<open>dict.get\<close> reads it. Floating-point numbers and arbitrary objects are not part of
  the value type. A Python \<open>str\<close> is a \<open>string\<close> whose characters are the code
  points below 256.
\<close>

datatype pyval =
    PyNone
  | PyBool bool
  | PyInt int
  | PyStr string
  | PyList "pyval list"
  | PyDict "(string \<times> pyval) list"

text \<open>
  The exceptions the modelled code can meet, each with its message (\<open>str(e)\<close>); the
  interpreter's and pydantic's own messages are abridged. \<open>ValidationError\<close> is
  pydantic's, which derives from \<open>ValueError\<close>; \<open>RemoteError\<close> stands for whatever
  the SDK or the HTTP client raises on a failed call.
\<close>

datatype exn =
    TypeError string
  | AttributeError string
  | ValueError string
  | ValidationError string
  | RemoteError string

fun exn_message :: "exn \<Rightarrow> string" where
  "exn_message (TypeError m) = m"
| "exn_message (AttributeError m) = m"
| "exn_message (ValueError m) = m"
| "exn_message (ValidationError m) = m"
| "exn_message (RemoteError m) = m"

text \<open>\<open>isinstance(e, ValueError)\<close>, what \<open>except ValueError\<close> catches.\<close>

fun is_ValueError :: "exn \<Rightarrow> bool" where
  "is_ValueError (ValueError m) = True"
| "is_ValueError (ValidationError m) = True"
| "is_ValueError e = False"

text \<open>Truth value of a Python value, as \<open>if v:\<close>, \<open>v and ...\<close> and \<open>v or ...\<close> test it.\<close>

fun truthy :: "pyval \<Rightarrow> bool" where
  "truthy PyNone = False"
| "truthy (PyBool b) = b"
| "truthy (PyInt i) = (i \<noteq> 0)"
| "truthy (PyStr s) = (s \<noteq> [])"
| "truthy (PyList xs) = (xs \<noteq> [])"
| "truthy (PyDict kvs) = (kvs \<noteq> [])"

fun type_name :: "pyval \<Rightarrow> string" where
  "type_name PyNone = ''NoneType''"
| "type_name (PyBool b) = ''bool''"
| "type_name (PyInt i) = ''int''"
| "type_name (PyStr s) = ''str''"
| "type_name (PyList xs) = ''list''"
| "type_name (PyDict kvs) = ''dict''"

text \<open>
  The integer a value stands for in arithmetic and comparison against an \<open>int\<close>; a
  \<open>bool\<close> is an \<open>int\<close> in Python, every other kind of value raises \<open>TypeError\<close>.
\<close>

fun int_operand :: "pyval \<Rightarrow> exn + int" where
  "int_operand (PyInt i) = Inr i"
| "int_operand (PyBool b) = Inr (if b then 1 else 0)"
| "int_operand v = Inl (TypeError (''unsupported operand: int and '' @ type_name v))"

section \<open>Python's text functions and \<open>json\<close>\<close>

text \<open>Decimal and hexadecimal digits; \<open>str(n)\<close> of an integer.\<close>

definition digit_char :: "nat \<Rightarrow> char" where
  "digit_char n = ''0123456789abcdef'' ! n"

function string_of_nat :: "nat \<Rightarrow> string" where
  "string_of_nat n =
     (if n < 10 then [digit_char n] else string_of_nat (n div 10) @ [digit_char (n mod 10)])"
  by pat_completeness auto
termination
  by (relation "measure id") auto

definition string_of_int :: "int \<Rightarrow> string" where
  "string_of_int i = (if i < 0 then CHR ''-'' # string_of_nat (nat (- i)) else string_of_nat (nat i))"

text \<open>\<open>sep.join(xs)\<close>.\<close>

fun join :: "string \<Rightarrow> string list \<Rightarrow> string" where
  "join sep [] = []"
| "join sep [x] = x"
| "join sep (x # y # ys) = x @ sep @ join sep (y # ys)"

text \<open>
  \<open>json.dumps\<close> with its default settings (\<open>ensure_ascii\<close>, separators \<open>', '\<close>
  and \<open>': '\<close>), on the values of \<open>pyval\<close>: every one of them can be encoded. The
  standard library is not part of the repository; the cache takes the two functions as
  parameters, and the definitions here are what the examples run.
\<close>

definition quote_char :: char where "quote_char = CHR 0x22"
definition backslash :: char where "backslash = CHR 0x5C"

definition hex2 :: "nat \<Rightarrow> string" where
  "hex2 n = [digit_char (n div 16), digit_char (n mod 16)]"

definition json_escape_char :: "char \<Rightarrow> string" where
  "json_escape_char c =
     (if c = quote_char then [backslash, quote_char]
      else if c = backslash then [backslash, backslash]
      else if c = CHR 0x0A then [backslash, CHR ''n'']
      else if c = CHR 0x0D then [backslash, CHR ''r'']
      else if c = CHR 0x09 then [backslash, CHR ''t'']
      else if c = CHR 0x08 then [backslash, CHR ''b'']
      else if c = CHR 0x0C then [backslash, CHR ''f'']
      else if 32 \<le> (of_char c :: nat) \<and> (of_char c :: nat) \<le> 126 then [c]
      else [backslash, CHR ''u'', CHR ''0'', CHR ''0''] @ hex2 (of_char c))"

definition json_quote :: "string \<Rightarrow> string" where
  "json_quote s = quote_char # concat (map json_escape_char s) @ [quote_char]"

fun json_encode :: "pyval \<Rightarrow> string" where
  "json_encode PyNone = ''null''"
| "json_encode (PyBool b) = (if b then ''true'' else ''false'')"
| "json_encode (PyInt i) = string_of_int i"
| "json_encode (PyStr s) = json_quote s"
| "json_encode (PyList xs) = ''['' @ join '', '' (map json_encode xs) @ '']''"
| "json_encode (PyDict kvs) =
     ''{'' @ join '', '' (map (\<lambda>kv. json_quote (fst kv) @ '': '' @ json_encode (snd kv)) kvs) @ ''}''"


text \<open>
  \<open>json.loads\<close> on a \<open>str\<close>: optional white space, one value, optional white
  space. \<open>None\<close> stands for \<open>JSONDecodeError\<close>. Two kinds of document that
  Python accepts lie outside \<open>pyval\<close> and get \<open>None\<close> here too: a number with a
  fraction or an exponent and the literals \<open>NaN\<close>, \<open>Infinity\<close>, \<open>-Infinity\<close>
  (floats), and a string with a \<open>\u\<close> escape of a code point from 256 on. The
  interpreter's limits on the nesting depth and on the number of digits of an integer
  are left out. The recursion is bounded by twice the length of the text, plus two,
  which is enough for every document (\<open>json_loads_any_fuel\<close> below).
\<close>

definition is_ws :: "char \<Rightarrow> bool" where
  "is_ws c \<longleftrightarrow> c = CHR '' '' \<or> c = CHR 0x09 \<or> c = CHR 0x0A \<or> c = CHR 0x0D"

definition skip_ws :: "string \<Rightarrow> string" where
  "skip_ws = dropWhile is_ws"

definition is_digit :: "char \<Rightarrow> bool" where
  "is_digit c \<longleftrightarrow> 48 \<le> (of_char c :: nat) \<and> (of_char c :: nat) \<le> 57"

definition nat_of_digits :: "string \<Rightarrow> nat" where
  "nat_of_digits ds = foldl (\<lambda>a c. 10 * a + (of_char c - 48)) 0 ds"

definition scan_int :: "string \<Rightarrow> (int \<times> string) option" where
  "scan_int s =
     (let neg = (case s of [] \<Rightarrow> False | c # r \<Rightarrow> c = CHR ''-'');
          t = (if neg then tl s else s)
      in case t of
           [] \<Rightarrow> None
         | d # r \<Rightarrow>
             if d = CHR ''0'' then Some (0, r)
             else if is_digit d then
               Some ((if neg then - 1 else 1) * int (nat_of_digits (takeWhile is_digit t)),
                     dropWhile is_digit t)
             else None)"

definition starts_fraction :: "string \<Rightarrow> bool" where
  "starts_fraction r = (case r of c # d # _ \<Rightarrow> c = CHR ''.'' \<and> is_digit d | _ \<Rightarrow> False)"

definition starts_exponent :: "string \<Rightarrow> bool" where
  "starts_exponent r =
     (case r of
        e # d # r' \<Rightarrow>
          (e = CHR ''e'' \<or> e = CHR ''E'') \<and>
          (is_digit d \<or> ((d = CHR ''+'' \<or> d = CHR ''-'') \<and> (case r' of [] \<Rightarrow> False | d' # _ \<Rightarrow> is_digit d')))
      | _ \<Rightarrow> False)"

definition scan_number :: "string \<Rightarrow> (pyval \<times> string) option" where
  "scan_number s =
     (case scan_int s of
        None \<Rightarrow> None
      | Some (i, r) \<Rightarrow> if starts_fraction r \<or> starts_exponent r then None else Some (PyInt i, r))"

definition hex_val :: "char \<Rightarrow> nat option" where
  "hex_val c =
     (let n = (of_char c :: nat) in
      if 48 \<le> n \<and> n \<le> 57 then Some (n - 48)
      else if 97 \<le> n \<and> n \<le> 102 then Some (n - 87)
      else if 65 \<le> n \<and> n \<le> 70 then Some (n - 55)
      else None)"

definition hex4 :: "string \<Rightarrow> nat option" where
  "hex4 s =
     (case s of
        a # b # c # d # _ \<Rightarrow>
          (case (hex_val a, hex_val b, hex_val c, hex_val d) of
             (Some w, Some x, Some y, Some z) \<Rightarrow> Some (((w * 16 + x) * 16 + y) * 16 + z)
           | _ \<Rightarrow> None)
      | _ \<Rightarrow> None)"

definition unescape :: "char \<Rightarrow> char option" where
  "unescape e =
     (if e = quote_char then Some quote_char
      else if e = backslash then Some backslash
      else if e = CHR ''/'' then Some (CHR ''/'')
      else if e = CHR ''b'' then Some (CHR 0x08)
      else if e = CHR ''f'' then Some (CHR 0x0C)
      else if e = CHR ''n'' then Some (CHR 0x0A)
      else if e = CHR ''r'' then Some (CHR 0x0D)
      else if e = CHR ''t'' then Some (CHR 0x09)
      else None)"

definition cons_result :: "char \<Rightarrow> (string \<times> string) option \<Rightarrow> (string \<times> string) option" where
  "cons_result c r = (case r of None \<Rightarrow> None | Some (t, rest) \<Rightarrow> Some (c # t, rest))"

fun scan_string :: "string \<Rightarrow> (string \<times> string) option" where
  "scan_string [] = None"
| "scan_string (c # r) =
     (if c = quote_char then Some ([], r)
      else if c = backslash then
        (case r of
           [] \<Rightarrow> None
         | e # r' \<Rightarrow>
             if e = CHR ''u'' then
               (case hex4 r' of
                  None \<Rightarrow> None
                | Some n \<Rightarrow> if n < 256 then cons_result (char_of n) (scan_string (drop 4 r')) else None)
             else
               (case unescape e of
                  None \<Rightarrow> None
                | Some ch \<Rightarrow> cons_result ch (scan_string r')))
      else if (of_char c :: nat) < 32 then None
      else cons_result c (scan_string r))"

fun dict_set :: "(string \<times> pyval) list \<Rightarrow> string \<Rightarrow> pyval \<Rightarrow> (string \<times> pyval) list" where
  "dict_set [] k v = [(k, v)]"
| "dict_set ((k', v') # kvs) k v = (if k' = k then (k, v) # kvs else (k', v') # dict_set kvs k v)"

fun parse_value :: "nat \<Rightarrow> string \<Rightarrow> (pyval \<times> string) option"
  and parse_elements :: "nat \<Rightarrow> string \<Rightarrow> pyval list \<Rightarrow> (pyval \<times> string) option"
  and parse_members :: "nat \<Rightarrow> string \<Rightarrow> (string \<times> pyval) list \<Rightarrow> (pyval \<times> string) option" where
  "parse_value 0 s = None"
| "parse_value (Suc n) s =
     (case s of
        [] \<Rightarrow> None
      | c # r \<Rightarrow>
          if c = quote_char then
            (case scan_string r of None \<Rightarrow> None | Some (t, r') \<Rightarrow> Some (PyStr t, r'))
          else if c = CHR ''{'' then
            (case skip_ws r of
               [] \<Rightarrow> None
             | c' # r' \<Rightarrow> if c' = CHR ''}'' then Some (PyDict [], r') else parse_members n (c' # r') [])
          else if c = CHR ''['' then
            (case skip_ws r of
               [] \<Rightarrow> None
             | c' # r' \<Rightarrow> if c' = CHR '']'' then Some (PyList [], r') else parse_elements n (c' # r') [])
          else if take 4 s = ''null'' then Some (PyNone, drop 4 s)
          else if take 4 s = ''true'' then Some (PyBool True, drop 4 s)
          else if take 5 s = ''false'' then Some (PyBool False, drop 5 s)
          else scan_number s)"
| "parse_elements 0 s acc = None"
| "parse_elements (Suc n) s acc =
     (case parse_value n s of
        None \<Rightarrow> None
      | Some (v, r) \<Rightarrow>
          (case skip_ws r of
             [] \<Rightarrow> None
           | c # r' \<Rightarrow>
               if c = CHR '']'' then Some (PyList (acc @ [v]), r')
               else if c = CHR '','' then parse_elements n (skip_ws r') (acc @ [v])
               else None))"
| "parse_members 0 s acc = None"
| "parse_members (Suc n) s acc =
     (case s of
        [] \<Rightarrow> None
      | q # r0 \<Rightarrow>
          if q \<noteq> quote_char then None
          else
            (case scan_string r0 of
               None \<Rightarrow> None
             | Some (k, r1) \<Rightarrow>
                 (case skip_ws r1 of
                    [] \<Rightarrow> None
                  | c # r2 \<Rightarrow>
                      if c \<noteq> CHR '':'' then None
                      else
                        (case parse_value n (skip_ws r2) of
                           None \<Rightarrow> None
                         | Some (v, r3) \<Rightarrow>
                             (case skip_ws r3 of
                                [] \<Rightarrow> None
                              | c' # r4 \<Rightarrow>
                                  if c' = CHR ''}'' then Some (PyDict (dict_set acc k v), r4)
                                  else if c' = CHR '','' then
                                    parse_members n (skip_ws r4) (dict_set acc k v)
                                  else None)))))"

definition json_loads :: "string \<Rightarrow> pyval option" where
  "json_loads s =
     (case parse_value (2 * length s + 2) (skip_ws s) of
        None \<Rightarrow> None
      | Some (v, r) \<Rightarrow> if skip_ws r = [] then Some v else None)"

text \<open>
  \<open>repr\<close> and \<open>str\<close> of a value. A string is quoted with \<open>'\<close>, or with
  \<open>"\<close> when it holds a \<open>'\<close> and no \<open>"\<close>; the characters that are not
  printable are escaped.
\<close>

definition py_repr_char :: "char \<Rightarrow> char \<Rightarrow> string" where
  "py_repr_char q c =
     (let n = (of_char c :: nat) in
      if c = q \<or> c = backslash then [backslash, c]
      else if c = CHR 0x09 then [backslash, CHR ''t'']
      else if c = CHR 0x0A then [backslash, CHR ''n'']
      else if c = CHR 0x0D then [backslash, CHR ''r'']
      else if n < 32 \<or> n = 127 \<or> (128 \<le> n \<and> n \<le> 160) \<or> n = 173
        then [backslash, CHR ''x''] @ hex2 n
      else [c])"

definition py_repr_str :: "string \<Rightarrow> string" where
  "py_repr_str s =
     (let q = (if CHR 0x27 \<in> set s \<and> quote_char \<notin> set s then quote_char else CHR 0x27)
      in q # concat (map (py_repr_char q) s) @ [q])"

fun py_repr :: "pyval \<Rightarrow> string" where
  "py_repr PyNone = ''None''"
| "py_repr (PyBool b) = (if b then ''True'' else ''False'')"
| "py_repr (PyInt i) = string_of_int i"
| "py_repr (PyStr s) = py_repr_str s"
| "py_repr (PyList xs) = ''['' @ join '', '' (map py_repr xs) @ '']''"
| "py_repr (PyDict kvs) =
     ''{'' @ join '', '' (map (\<lambda>kv. py_repr_str (fst kv) @ '': '' @ py_repr (snd kv)) kvs) @ ''}''"

definition py_str :: "pyval \<Rightarrow> string" where
  "py_str v = (case v of PyStr s \<Rightarrow> s | _ \<Rightarrow> py_repr v)"

text \<open>\<open>str.lower\<close> on the code points below 256.\<close>

definition py_lower_char :: "char \<Rightarrow> char" where
  "py_lower_char c =
     (let n = (of_char c :: nat) in
      if (65 \<le> n \<and> n \<le> 90) \<or> (192 \<le> n \<and> n \<le> 222 \<and> n \<noteq> 215) then char_of (n + 32) else c)"

definition py_lower :: "string \<Rightarrow> string" where
  "py_lower = map py_lower_char"

section \<open>Records of the remote platform\<close>

text \<open>
  \<open>Memory\<close> as \<open>BackboardService.list_memories\<close> builds it: \<open>id\<close>, \<open>content\<close> and
  \<open>metadata\<close> (\<open>tags\<close>, \<open>created_at\<close> and \<open>updated_at\<close> stay \<open>None\<close> there).
\<close>

record memory =
  mem_id :: "string option"
  content :: string
  metadata :: "(string \<times> pyval) list option"

text \<open>\<open>Assistant\<close>, with the fields the cache and the routes read.\<close>

record assistant =
  a_id :: string
  a_name :: string
  a_system_prompt :: "string option"

text \<open>
  The state the cache works on: the remote platform's assistants and, for each assistant
  id, its memories in listing order; the outcomes of the coming remote calls
  (\<open>None\<close>: the call succeeds, \<open>Some e\<close>: it raises \<open>e\<close> and changes nothing; an
  exhausted list means that every further call succeeds); and the field
  \<open>_cache_assistant_id\<close> of the \<open>BackboardCache\<close> object.
\<close>

record state =
  assistants :: "assistant list"
  memories :: "string \<Rightarrow> memory list"
  faults :: "exn option list"
  cache_assistant_id :: "string option"

type_synonym 'a io = "state \<Rightarrow> (exn + 'a) \<times> state"

definition return_io :: "'a \<Rightarrow> 'a io" where
  "return_io a w = (Inr a, w)"

definition bind_io :: "'a io \<Rightarrow> ('a \<Rightarrow> 'b io) \<Rightarrow> 'b io" where
  "bind_io m f w = (case m w of (Inl e, w') \<Rightarrow> (Inl e, w') | (Inr a, w') \<Rightarrow> f a w')"

text \<open>\<open>try: ... except Exception: return d\<close>: the state reached so far is kept.\<close>

definition try_except :: "'a io \<Rightarrow> 'a \<Rightarrow> 'a io" where
  "try_except m d w = (case m w of (Inl e, w') \<Rightarrow> (Inr d, w') | (Inr a, w') \<Rightarrow> (Inr a, w'))"

section \<open>The remote client boundary\<close>

text \<open>
  The SDK client and the platform behind it are not part of the repository. They are
  modelled as a store: a listing returns the stored records in order (of the
  assistants, the page that \<open>skip\<close> and \<open>limit\<close> ask for; a bound the platform
  may put on \<open>limit\<close> is not modelled), a creation appends a record under an id
  the platform chooses, different from the ids in use and not empty, and a deletion
  removes the record with the given id. Each call of a \<open>BackboardService\<close> method
  takes the next outcome from \<open>faults\<close>.
\<close>

definition fresh_id :: "string list \<Rightarrow> string" where
  "fresh_id used = replicate (Suc (fold max (map length used) 0)) (CHR ''m'')"

definition remote :: "(state \<Rightarrow> 'a \<times> state) \<Rightarrow> 'a io" where
  "remote act w =
     (case faults w of
        [] \<Rightarrow> (case act w of (a, w') \<Rightarrow> (Inr a, w'))
      | None # fs \<Rightarrow> (case act (w\<lparr>faults := fs\<rparr>) of (a, w') \<Rightarrow> (Inr a, w'))
      | Some e # fs \<Rightarrow> (Inl e, w\<lparr>faults := fs\<rparr>))"

definition list_assistants :: "nat \<Rightarrow> nat \<Rightarrow> assistant list io" where
  "list_assistants skip limit = remote (\<lambda>w. (take limit (drop skip (assistants w)), w))"

definition create_assistant :: "string \<Rightarrow> string option \<Rightarrow> assistant io" where
  "create_assistant name prompt =
     remote (\<lambda>w.
       let a = \<lparr>a_id = fresh_id (map a_id (assistants w)), a_name = name,
                a_system_prompt = prompt\<rparr>
       in (a, w\<lparr>assistants := assistants w @ [a]\<rparr>))"

definition list_memories :: "string \<Rightarrow> memory list io" where
  "list_memories aid = remote (\<lambda>w. (memories w aid, w))"

definition store_memory :: "string \<Rightarrow> (string \<times> pyval) list \<Rightarrow> string \<Rightarrow> memory io" where
  "store_memory c md aid =
     remote (\<lambda>w.
       let m = \<lparr>mem_id = Some (fresh_id (List.map_filter mem_id (memories w aid))),
                content = c, metadata = Some md\<rparr>
       in (m, w\<lparr>memories := (memories w)(aid := memories w aid @ [m])\<rparr>))"

definition delete_memory :: "string \<Rightarrow> string \<Rightarrow> bool io" where
  "delete_memory mid aid =
     remote (\<lambda>w.
       (True, w\<lparr>memories :=
                  (memories w)(aid := filter (\<lambda>m. mem_id m \<noteq> Some mid) (memories w aid))\<rparr>))"

section \<open>BackboardCache\<close>

definition CACHE_ASSISTANT_NAME :: string where
  "CACHE_ASSISTANT_NAME = ''bb_browser_cache''"

definition CACHE_TTL :: int where
  "CACHE_TTL = 3600"

text \<open>\<open>BackboardCache._get_cache_assistant_id\<close>.\<close>

definition find_or_create_cache_assistant :: "string io" where
  "find_or_create_cache_assistant =
     bind_io (list_assistants 0 100) (\<lambda>as.
       case find (\<lambda>a. a_name a = CACHE_ASSISTANT_NAME) as of
         Some a \<Rightarrow> (\<lambda>w. (Inr (a_id a), w\<lparr>cache_assistant_id := Some (a_id a)\<rparr>))
       | None \<Rightarrow>
           bind_io (create_assistant CACHE_ASSISTANT_NAME
                      (Some ''Cache storage for bb_browser application''))
             (\<lambda>a w. (Inr (a_id a), w\<lparr>cache_assistant_id := Some (a_id a)\<rparr>)))"

definition get_cache_assistant_id :: "string io" where
  "get_cache_assistant_id w =
     (case cache_assistant_id w of
        Some i \<Rightarrow> if i \<noteq> [] then (Inr i, w) else find_or_create_cache_assistant w
      | None \<Rightarrow> find_or_create_cache_assistant w)"

text \<open>\<open>memory.metadata and memory.metadata.get('cache_key') == key\<close>.\<close>

definition has_cache_key :: "memory \<Rightarrow> string \<Rightarrow> bool" where
  "has_cache_key m key =
     (case metadata m of
        None \<Rightarrow> False
      | Some md \<Rightarrow> md \<noteq> [] \<and> map_of md ''cache_key'' = Some (PyStr key))"

text \<open>\<open>memory.metadata and memory.metadata.get('cache_key')\<close>.\<close>

definition has_any_cache_key :: "memory \<Rightarrow> bool" where
  "has_any_cache_key m =
     (case metadata m of
        None \<Rightarrow> False
      | Some md \<Rightarrow> md \<noteq> [] \<and> (case map_of md ''cache_key'' of None \<Rightarrow> False | Some v \<Rightarrow> truthy v))"

text \<open>\<open>memory.metadata.get(k, d)\<close>, on a memory whose metadata is a dictionary.\<close>

definition md_get :: "memory \<Rightarrow> string \<Rightarrow> pyval \<Rightarrow> pyval" where
  "md_get m k d =
     (case metadata m of
        None \<Rightarrow> d
      | Some md \<Rightarrow> (case map_of md k of None \<Rightarrow> d | Some v \<Rightarrow> v))"

text \<open>\<open>ttl or self.CACHE_TTL\<close>.\<close>

definition ttl_or_default :: "int option \<Rightarrow> int" where
  "ttl_or_default ttl = (case ttl of None \<Rightarrow> CACHE_TTL | Some t \<Rightarrow> if t \<noteq> 0 then t else CACHE_TTL)"

text \<open>\<open>now - cache_time < cache_ttl\<close>, with the \<open>TypeError\<close> of a non-numeric operand.\<close>

definition age_lt :: "int \<Rightarrow> pyval \<Rightarrow> pyval \<Rightarrow> exn + bool" where
  "age_lt now cache_time cache_ttl =
     (case int_operand cache_time of
        Inl e \<Rightarrow> Inl e
      | Inr t \<Rightarrow> (case int_operand cache_ttl of Inl e \<Rightarrow> Inl e | Inr l \<Rightarrow> Inr (now - t < l)))"

text \<open>\<open>now - cache_time >= cache_ttl\<close>.\<close>

definition age_ge :: "int \<Rightarrow> pyval \<Rightarrow> pyval \<Rightarrow> exn + bool" where
  "age_ge now cache_time cache_ttl =
     (case int_operand cache_time of
        Inl e \<Rightarrow> Inl e
      | Inr t \<Rightarrow> (case int_operand cache_ttl of Inl e \<Rightarrow> Inl e | Inr l \<Rightarrow> Inr (now - t \<ge> l)))"

text \<open>The loop of \<open>BackboardCache.delete\<close> over the listing it took.\<close>

fun delete_loop :: "string \<Rightarrow> string \<Rightarrow> memory list \<Rightarrow> unit io" where
  "delete_loop key aid [] w = (Inr (), w)"
| "delete_loop key aid (m # ms) w =
     (if has_cache_key m key then
        (case mem_id m of
           None \<Rightarrow> delete_loop key aid ms w
         | Some i \<Rightarrow>
             if i \<noteq> [] then
               (case delete_memory i aid w of
                  (Inl e, w') \<Rightarrow> (Inl e, w')
                | (Inr _, w') \<Rightarrow> delete_loop key aid ms w')
             else delete_loop key aid ms w)
      else delete_loop key aid ms w)"

text \<open>\<open>BackboardCache.delete\<close>: the body of its \<open>try\<close>, and the method.\<close>

definition delete_body :: "string \<Rightarrow> bool io" where
  "delete_body key =
     bind_io get_cache_assistant_id (\<lambda>aid.
     bind_io (list_memories aid) (\<lambda>ms.
     bind_io (delete_loop key aid ms) (\<lambda>_.
     return_io True)))"

definition cache_delete :: "string \<Rightarrow> bool io" where
  "cache_delete key = try_except (delete_body key) False"

text \<open>
  \<open>json.dumps(value) if not isinstance(value, str) else value\<close>; \<open>dumps\<close> is
  \<open>json.dumps\<close>, which raises on a value it cannot encode.
\<close>

definition encode_value :: "(pyval \<Rightarrow> exn + string) \<Rightarrow> pyval \<Rightarrow> exn + string" where
  "encode_value dumps v = (case v of PyStr s \<Rightarrow> Inr s | _ \<Rightarrow> dumps v)"

text \<open>\<open>json.loads(memory.content)\<close>, and \<open>memory.content\<close> itself when that raises.\<close>

definition decode_content :: "(string \<Rightarrow> pyval option) \<Rightarrow> string \<Rightarrow> pyval" where
  "decode_content loads c = (case loads c of Some v \<Rightarrow> v | None \<Rightarrow> PyStr c)"

text \<open>
  The loop of \<open>BackboardCache.get\<close>. \<open>loads\<close> is \<open>json.loads\<close> (\<open>None\<close>: it raises),
  \<open>now\<close> is the reading \<open>int(time.time())\<close> of the clock during the call.
\<close>

fun get_loop ::
  "(string \<Rightarrow> pyval option) \<Rightarrow> string \<Rightarrow> int option \<Rightarrow> int \<Rightarrow> memory list \<Rightarrow> pyval io" where
  "get_loop loads key ttl now [] w = (Inr PyNone, w)"
| "get_loop loads key ttl now (m # ms) w =
     (if has_cache_key m key then
        (case age_lt now (md_get m ''cache_time'' (PyInt 0))
                (md_get m ''ttl'' (PyInt (ttl_or_default ttl))) of
           Inl e \<Rightarrow> (Inl e, w)
         | Inr True \<Rightarrow>
             (Inr (decode_content loads (content m)), w)
         | Inr False \<Rightarrow>
             (case cache_delete key w of (_, w') \<Rightarrow> get_loop loads key ttl now ms w'))
      else get_loop loads key ttl now ms w)"

text \<open>
  \<open>BackboardCache.get\<close>: the body of its \<open>try\<close>, and the method. Python's
  \<open>None\<close> result is \<open>PyNone\<close>.
\<close>

definition get_body :: "(string \<Rightarrow> pyval option) \<Rightarrow> string \<Rightarrow> int option \<Rightarrow> int \<Rightarrow> pyval io" where
  "get_body loads key ttl now =
     bind_io get_cache_assistant_id (\<lambda>aid.
     bind_io (list_memories aid) (\<lambda>ms.
     get_loop loads key ttl now ms))"

definition cache_get :: "(string \<Rightarrow> pyval option) \<Rightarrow> string \<Rightarrow> int option \<Rightarrow> int \<Rightarrow> pyval io" where
  "cache_get loads key ttl now = try_except (get_body loads key ttl now) PyNone"

text \<open>
  \<open>BackboardCache.set\<close>: the body of its \<open>try\<close>, and the method. The \<open>tags\<close>
  of the \<open>MemoryCreate\<close> are not sent by \<open>BackboardService.store_memory\<close>.
\<close>

definition set_body ::
  "(pyval \<Rightarrow> exn + string) \<Rightarrow> string \<Rightarrow> pyval \<Rightarrow> int option \<Rightarrow> int \<Rightarrow> bool io" where
  "set_body dumps key v ttl now =
     bind_io get_cache_assistant_id (\<lambda>aid.
     bind_io (cache_delete key) (\<lambda>_.
     bind_io (\<lambda>w. (encode_value dumps v, w)) (\<lambda>c.
     bind_io (store_memory c
                [(''cache_key'', PyStr key), (''cache_time'', PyInt now),
                 (''ttl'', PyInt (ttl_or_default ttl))] aid) (\<lambda>_.
     return_io True))))"

definition cache_set ::
  "(pyval \<Rightarrow> exn + string) \<Rightarrow> string \<Rightarrow> pyval \<Rightarrow> int option \<Rightarrow> int \<Rightarrow> bool io" where
  "cache_set dumps key v ttl now = try_except (set_body dumps key v ttl now) False"

text \<open>The loop of \<open>BackboardCache.clear_expired\<close>, with the running \<open>expired_count\<close>.\<close>

fun clear_loop :: "int \<Rightarrow> string \<Rightarrow> memory list \<Rightarrow> int \<Rightarrow> int io" where
  "clear_loop now aid [] n w = (Inr n, w)"
| "clear_loop now aid (m # ms) n w =
     (if has_any_cache_key m then
        (case age_ge now (md_get m ''cache_time'' (PyInt 0))
                (md_get m ''ttl'' (PyInt CACHE_TTL)) of
           Inl e \<Rightarrow> (Inl e, w)
         | Inr True \<Rightarrow>
             (case mem_id m of
                None \<Rightarrow> clear_loop now aid ms n w
              | Some i \<Rightarrow>
                  if i \<noteq> [] then
                    (case delete_memory i aid w of
                       (Inl e, w') \<Rightarrow> (Inl e, w')
                     | (Inr _, w') \<Rightarrow> clear_loop now aid ms (n + 1) w')
                  else clear_loop now aid ms n w)
         | Inr False \<Rightarrow> clear_loop now aid ms n w)
      else clear_loop now aid ms n w)"

text \<open>\<open>BackboardCache.clear_expired\<close>: the body of its \<open>try\<close>, and the method.\<close>

definition clear_expired_body :: "int \<Rightarrow> int io" where
  "clear_expired_body now =
     bind_io get_cache_assistant_id (\<lambda>aid.
     bind_io (list_memories aid) (\<lambda>ms.
     clear_loop now aid ms 0))"

definition clear_expired :: "int \<Rightarrow> int io" where
  "clear_expired now = try_except (clear_expired_body now) 0"

section \<open>Message normalisation\<close>

text \<open>\<open>d.get(k, default)\<close> and \<open>getattr(o, k, default)\<close>.\<close>

definition dict_get :: "(string \<times> pyval) list \<Rightarrow> string \<Rightarrow> pyval \<Rightarrow> pyval" where
  "dict_get d k dflt = (case map_of d k of None \<Rightarrow> dflt | Some v \<Rightarrow> v)"

text \<open>
  \<open>Message\<close>. The \<open>timestamp\<close> is kept as the value it was given as; how pydantic
  reads a \<open>datetime\<close> is the parameter \<open>valid_timestamp\<close> of \<open>message_init\<close>.
\<close>

record message =
  role :: string
  msg_content :: string
  timestamp :: pyval



text \<open>
  An entry of a thread's \<open>messages\<close> as \<open>BackboardService._dict_to_model\<close> meets it: a
  dict, an SDK object given by its attributes, or anything else.
\<close>

datatype raw_message =
    MsgDict "(string \<times> pyval) list"
  | MsgObject "(string \<times> pyval) list"
  | MsgOther

text \<open>
  The loop body of \<open>_dict_to_model\<close> for one entry: \<open>Message.model_construct\<close>, which
  validates nothing, on the \<open>str\<close> of the role and of the content. \<open>str\<close> of a value
  of \<open>pyval\<close> does not raise, so the \<open>except\<close> branches are not reached; an entry that is
  neither a dict nor an object is dropped.
\<close>

fun process_message :: "raw_message \<Rightarrow> message option" where
  "process_message (MsgDict d) =
     Some \<lparr>role = py_str (dict_get d ''role'' (PyStr ''user'')),
           msg_content = py_str (dict_get d ''content'' (PyStr [])),
           timestamp = dict_get d ''timestamp'' PyNone\<rparr>"
| "process_message (MsgObject attrs) =
     Some \<lparr>role = py_str (dict_get attrs ''role'' (PyStr ''user'')),
           msg_content = py_str (dict_get attrs ''content'' (PyStr [])),
           timestamp = dict_get attrs ''timestamp'' PyNone\<rparr>"
| "process_message MsgOther = None"

definition process_messages :: "raw_message list \<Rightarrow> message list" where
  "process_messages msgs = List.map_filter process_message msgs"


section \<open>The model catalog of \<open>BackboardService.list_models\<close>\<close>

record model_info =
  mi_id :: string
  mi_name :: string
  mi_provider :: "string option"
  mi_description :: "string option"
  mi_max_tokens :: "int option"
  mi_supports_streaming :: "bool option"

text \<open>
  The module's globals \<open>_models_cache\<close> and \<open>_models_cache_time\<close> (the empty dict
  it starts as is the empty list here: both are false and neither is ever returned),
  and the number of HTTP requests issued so far. A clock reading \<open>time.time()\<close> is a
  real number.
\<close>

record models_state =
  models_cache :: "model_info list"
  models_cache_time :: real
  http_requests :: nat

definition MODELS_CACHE_TTL :: real where
  "MODELS_CACHE_TTL = 3600"

text \<open>
  The platform's HTTP API is the parameter \<open>api\<close>: what the \<open>n\<close>-th request, with the
  given \<open>skip\<close> and \<open>limit\<close> (none on the first request), is answered with: the JSON
  body, or the exception of the transport or of \<open>raise_for_status\<close>.
\<close>

type_synonym http_api = "nat \<Rightarrow> (nat \<times> nat) option \<Rightarrow> exn + pyval"

text \<open>The items \<open>for x in v\<close> and \<open>list(v)\<close> go through.\<close>

fun iter_list :: "pyval \<Rightarrow> exn + pyval list" where
  "iter_list (PyList xs) = Inr xs"
| "iter_list (PyStr s) = Inr (map (\<lambda>c. PyStr [c]) s)"
| "iter_list (PyDict kvs) = Inr (map (\<lambda>kv. PyStr (fst kv)) kvs)"
| "iter_list v = Inl (TypeError (type_name v @ '' object is not iterable''))"

text \<open>\<open>range(100, total, 100)\<close> for \<open>total > 100\<close>.\<close>

definition page_skips :: "int \<Rightarrow> nat list" where
  "page_skips tot = map (\<lambda>k. 100 * Suc k) [0..<nat ((tot - 1) div 100)]"

text \<open>
  \<open>fetch_page\<close> for each \<open>skip\<close>, and the \<open>extend\<close> of the collected list. The pool
  runs the requests concurrently and the pages arrive in any order; here they are taken
  in the order of submission. A failed request, a body that is not an object and a
  page that cannot be iterated contribute nothing.
\<close>

fun fetch_pages :: "http_api \<Rightarrow> nat list \<Rightarrow> pyval list \<Rightarrow> models_state \<Rightarrow> pyval list \<times> models_state" where
  "fetch_pages api [] acc s = (acc, s)"
| "fetch_pages api (skip # skips) acc s =
     (let page = (case api (http_requests s) (Some (skip, 100)) of
                    Inl e \<Rightarrow> PyList []
                  | Inr resp \<Rightarrow>
                      (case resp of PyDict d \<Rightarrow> dict_get d ''models'' (PyList []) | _ \<Rightarrow> PyList []));
          s' = s\<lparr>http_requests := Suc (http_requests s)\<rparr>
      in fetch_pages api skips (case iter_list page of Inl e \<Rightarrow> acc | Inr xs \<Rightarrow> acc @ xs) s')"

text \<open>
  The body of the \<open>try\<close> of \<open>list_models\<close>. The construction of one \<open>ModelInfo\<close>
  from an item, with pydantic's validation, is the parameter \<open>model_info_of\<close>
  (\<open>None\<close>: it raises and the item is skipped).
\<close>

definition fetch_catalog ::
  "http_api \<Rightarrow> (pyval \<Rightarrow> model_info option) \<Rightarrow> models_state \<Rightarrow> (exn + model_info list) \<times> models_state" where
  "fetch_catalog api model_info_of s =
     (let s1 = s\<lparr>http_requests := Suc (http_requests s)\<rparr> in
      case api (http_requests s) None of
        Inl e \<Rightarrow> (Inl e, s1)
      | Inr data \<Rightarrow>
          (case data of
             PyDict d \<Rightarrow>
               (let tot = dict_get d ''total'' (PyInt 0);
                    models_data = dict_get d ''models'' (PyList [])
                in case int_operand tot of
                     Inl e \<Rightarrow> (Inl e, s1)
                   | Inr t \<Rightarrow>
                       (case iter_list models_data of
                          Inl e \<Rightarrow> (Inl e, s1)
                        | Inr first \<Rightarrow>
                            if t > 100 then
                              (case fetch_pages api (page_skips t) first s1 of
                                 (items, s2) \<Rightarrow> (Inr (List.map_filter model_info_of items), s2))
                            else (Inr (List.map_filter model_info_of first), s1)))
           | _ \<Rightarrow> (Inl (AttributeError (type_name data @ '' object has no attribute get'')), s1)))"

text \<open>\<open>BackboardService.list_models\<close>, called when the clock reads \<open>now\<close>.\<close>

definition list_models ::
  "http_api \<Rightarrow> (pyval \<Rightarrow> model_info option) \<Rightarrow> real \<Rightarrow> models_state \<Rightarrow> model_info list \<times> models_state" where
  "list_models api model_info_of now s =
     (if models_cache s \<noteq> [] \<and> now - models_cache_time s < MODELS_CACHE_TTL then
        (models_cache s, s)
      else
        (case fetch_catalog api model_info_of s of
           (Inl e, s') \<Rightarrow> ([], s')
         | (Inr result, s') \<Rightarrow>
             (result, s'\<lparr>models_cache := result, models_cache_time := now\<rparr>)))"

section \<open>HTTP routes\<close>

text \<open>
  A request: the API key of the session, the query parameters and the JSON body, an
  object. A response: the status and the body.
\<close>

record request =
  session_api_key :: "string option"
  query_args :: "(string \<times> string) list"
  json :: "(string \<times> pyval) list"

text \<open>A search result: \<open>memory.model_dump()\<close> with \<open>assistant_id\<close> and \<open>assistant_name\<close> added.\<close>

record hit =
  hit_memory :: memory
  hit_assistant_id :: string
  hit_assistant_name :: string

datatype body =
    ErrorBody string
  | AssistantBody assistant
  | MemoryBody memory
  | MemoriesBody "memory list"
  | HitsBody "hit list"

record response =
  status :: nat
  body :: body

text \<open>\<open>get_service\<close> of the route modules.\<close>

definition get_service :: "request \<Rightarrow> exn + string" where
  "get_service req =
     (case session_api_key req of
        None \<Rightarrow> Inl (ValueError ''API key not found in session'')
      | Some k \<Rightarrow> if k = [] then Inl (ValueError ''API key not found in session'') else Inr k)"

text \<open>
  The two handlers every route ends with: \<open>except ValueError\<close> answers 401,
  \<open>except Exception\<close> answers 500, both with \<open>{'error': str(e)}\<close>.
\<close>

definition error_response :: "exn \<Rightarrow> response" where
  "error_response e =
     \<lparr>status = (if is_ValueError e then 401 else 500), body = ErrorBody (exn_message e)\<rparr>"

definition handle_errors :: "response io \<Rightarrow> state \<Rightarrow> response \<times> state" where
  "handle_errors m w = (case m w of (Inl e, w') \<Rightarrow> (error_response e, w') | (Inr r, w') \<Rightarrow> (r, w'))"

definition lift_io :: "exn + 'a \<Rightarrow> 'a io" where
  "lift_io r w = (r, w)"

text \<open>
  \<open>AssistantCreate(**data)\<close>: \<open>name: str\<close> is required, \<open>model\<close> and
  \<open>system_prompt\<close> are \<open>Optional[str]\<close>, \<open>metadata\<close> is \<open>Optional[dict]\<close>.
\<close>

record assistant_create =
  ac_name :: string
  ac_model :: "string option"
  ac_system_prompt :: "string option"
  ac_metadata :: "(string \<times> pyval) list option"

definition optional_str :: "(string \<times> pyval) list \<Rightarrow> string \<Rightarrow> exn + string option" where
  "optional_str d k =
     (case map_of d k of
        None \<Rightarrow> Inr None
      | Some PyNone \<Rightarrow> Inr None
      | Some (PyStr s) \<Rightarrow> Inr (Some s)
      | Some _ \<Rightarrow> Inl (ValidationError (''validation error for AssistantCreate: '' @ k)))"

definition assistant_create_init :: "(string \<times> pyval) list \<Rightarrow> exn + assistant_create" where
  "assistant_create_init d =
     (case map_of d ''name'' of
        Some (PyStr n) \<Rightarrow>
          (case optional_str d ''model'' of
             Inl e \<Rightarrow> Inl e
           | Inr m \<Rightarrow>
               (case optional_str d ''system_prompt'' of
                  Inl e \<Rightarrow> Inl e
                | Inr p \<Rightarrow>
                    (case map_of d ''metadata'' of
                       None \<Rightarrow> Inr \<lparr>ac_name = n, ac_model = m, ac_system_prompt = p, ac_metadata = None\<rparr>
                     | Some PyNone \<Rightarrow>
                         Inr \<lparr>ac_name = n, ac_model = m, ac_system_prompt = p, ac_metadata = None\<rparr>
                     | Some (PyDict md) \<Rightarrow>
                         Inr \<lparr>ac_name = n, ac_model = m, ac_system_prompt = p, ac_metadata = Some md\<rparr>
                     | Some _ \<Rightarrow>
                         Inl (ValidationError ''validation error for AssistantCreate: metadata''))))
      | _ \<Rightarrow> Inl (ValidationError ''validation error for AssistantCreate: name''))"

text \<open>The route \<open>POST /api/assistants\<close>, \<open>create_assistant\<close> of \<open>app/api/assistants.py\<close>.\<close>

definition route_create_assistant :: "request \<Rightarrow> state \<Rightarrow> response \<times> state" where
  "route_create_assistant req =
     handle_errors
       (bind_io (lift_io (get_service req)) (\<lambda>_.
        bind_io (lift_io (assistant_create_init (json req))) (\<lambda>ac.
        bind_io (create_assistant (ac_name ac) (ac_system_prompt ac)) (\<lambda>a.
        return_io \<lparr>status = 201, body = AssistantBody a\<rparr>))))"

text \<open>
  \<open>BackboardService.retrieve_memory\<close>. The platform is taken to answer a request for
  an id it does not hold with an error.
\<close>

definition retrieve_memory :: "string \<Rightarrow> string \<Rightarrow> memory io" where
  "retrieve_memory mid aid =
     bind_io (remote (\<lambda>w. (find (\<lambda>m. mem_id m = Some mid) (memories w aid), w))) (\<lambda>r.
       case r of
         None \<Rightarrow> lift_io (Inl (RemoteError ''memory not found''))
       | Some m \<Rightarrow> return_io m)"

text \<open>The route \<open>GET /api/memory/<memory_id>\<close>, \<open>get_memory\<close> of \<open>app/api/memory.py\<close>.\<close>

definition route_get_memory :: "string \<Rightarrow> request \<Rightarrow> state \<Rightarrow> response \<times> state" where
  "route_get_memory memory_id req =
     handle_errors
       (bind_io (lift_io (get_service req)) (\<lambda>_.
        case map_of (query_args req) ''assistant_id'' of
          None \<Rightarrow> return_io \<lparr>status = 400, body = ErrorBody ''assistant_id is required''\<rparr>
        | Some aid \<Rightarrow>
            if aid = [] then return_io \<lparr>status = 400, body = ErrorBody ''assistant_id is required''\<rparr>
            else bind_io (retrieve_memory memory_id aid) (\<lambda>m.
                 return_io \<lparr>status = 200, body = MemoryBody m\<rparr>)))"

text \<open>\<open>needle in haystack\<close> on strings.\<close>

fun contains :: "string \<Rightarrow> string \<Rightarrow> bool" where
  "contains needle [] = (needle = [])"
| "contains needle (c # cs) = (take (length needle) (c # cs) = needle \<or> contains needle cs)"

text \<open>\<open>len(all_memories) >= limit\<close>.\<close>

definition len_ge :: "nat \<Rightarrow> pyval \<Rightarrow> exn + bool" where
  "len_ge n limit = (case int_operand limit of Inl e \<Rightarrow> Inl e | Inr l \<Rightarrow> Inr (int n \<ge> l))"

text \<open>\<open>xs[:limit]\<close>.\<close>

definition slice_to :: "pyval \<Rightarrow> 'a list \<Rightarrow> exn + 'a list" where
  "slice_to limit xs =
     (if limit = PyNone then Inr xs
      else case int_operand limit of
             Inl e \<Rightarrow> Inl (TypeError ''slice indices must be integers or None'')
           | Inr l \<Rightarrow> Inr (if l \<ge> 0 then take (nat l) xs else take (length xs - nat (- l)) xs))"

text \<open>
  The inner loop of the aggregate search over one assistant's memories. The list
  \<open>all_memories\<close> is extended in place, so what was appended before an exception
  stays; the result tells whether the loop raised.
\<close>

fun search_memories ::
  "string \<Rightarrow> pyval \<Rightarrow> assistant \<Rightarrow> memory list \<Rightarrow> hit list \<Rightarrow> exn option \<times> hit list" where
  "search_memories query limit a [] acc = (None, acc)"
| "search_memories query limit a (m # ms) acc =
     (if contains query (py_lower (content m)) then
        (let acc' = acc @ [\<lparr>hit_memory = m, hit_assistant_id = a_id a, hit_assistant_name = a_name a\<rparr>]
         in case len_ge (length acc') limit of
              Inl e \<Rightarrow> (Some e, acc')
            | Inr True \<Rightarrow> (None, acc')
            | Inr False \<Rightarrow> search_memories query limit a ms acc')
      else search_memories query limit a ms acc)"

text \<open>The outer loop over the assistants; an exception in its body moves on to the next one.\<close>

fun search_assistants ::
  "string \<Rightarrow> pyval \<Rightarrow> assistant list \<Rightarrow> hit list \<Rightarrow> state \<Rightarrow> hit list \<times> state" where
  "search_assistants query limit [] acc w = (acc, w)"
| "search_assistants query limit (a # as) acc w =
     (case list_memories (a_id a) w of
        (Inl e, w') \<Rightarrow> search_assistants query limit as acc w'
      | (Inr ms, w') \<Rightarrow>
          (case search_memories query limit a ms acc of
             (Some e, acc') \<Rightarrow> search_assistants query limit as acc' w'
           | (None, acc') \<Rightarrow>
               (case len_ge (length acc') limit of
                  Inl e \<Rightarrow> search_assistants query limit as acc' w'
                | Inr True \<Rightarrow> (acc', w')
                | Inr False \<Rightarrow> search_assistants query limit as acc' w')))"

text \<open>\<open>data.get('query', '').lower()\<close>.\<close>

definition query_lower :: "(string \<times> pyval) list \<Rightarrow> exn + string" where
  "query_lower d =
     (case dict_get d ''query'' (PyStr []) of
        PyStr q \<Rightarrow> Inr (py_lower q)
      | v \<Rightarrow> Inl (AttributeError (type_name v @ '' object has no attribute lower'')))"

text \<open>
  The route \<open>POST /api/memory/search\<close> when the body has no \<open>assistant_id\<close>: the
  search across all assistants. With an \<open>assistant_id\<close> the route hands over to
  \<open>BackboardService.search_memory\<close>, which is the parameter \<open>single\<close>.
\<close>

definition route_search_memory :: "(request \<Rightarrow> response io) \<Rightarrow> request \<Rightarrow> state \<Rightarrow> response \<times> state" where
  "route_search_memory single req =
     handle_errors
       (bind_io (lift_io (get_service req)) (\<lambda>_.
        if truthy (dict_get (json req) ''assistant_id'' PyNone) then single req
        else
          bind_io (list_assistants 0 10000) (\<lambda>as.
          bind_io (lift_io (query_lower (json req))) (\<lambda>query.
          let limit = dict_get (json req) ''limit'' (PyInt 50);
              as' = filter (\<lambda>a. a_name a \<noteq> ''bb_browser_cache'') as
          in (\<lambda>w. case search_assistants query limit as' [] w of
                     (found, w') \<Rightarrow>
                       (case slice_to limit found of
                          Inl e \<Rightarrow> (Inl e, w')
                        | Inr page \<Rightarrow> (Inr \<lparr>status = 200, body = HitsBody page\<rparr>, w')))))))"

text \<open>All the hits of the aggregate search, in the order the loops meet them.\<close>

definition all_hits :: "string \<Rightarrow> assistant list \<Rightarrow> (string \<Rightarrow> memory list) \<Rightarrow> hit list" where
  "all_hits query as mems =
     concat (map (\<lambda>a. map (\<lambda>m. \<lparr>hit_memory = m, hit_assistant_id = a_id a, hit_assistant_name = a_name a\<rparr>)
                          (filter (\<lambda>m. contains query (py_lower (content m))) (mems (a_id a))))
                 as)"

section \<open>Notions the properties are stated with\<close>

text \<open>A memory has an id the cache can delete it by: \<open>if memory.id\<close>.\<close>

definition id_assigned :: "memory \<Rightarrow> bool" where
  "id_assigned m = (case mem_id m of None \<Rightarrow> False | Some i \<Rightarrow> i \<noteq> [])"

text \<open>
  The test by which the loop of \<open>clear_expired\<close> picks a memory, as the code
  makes it: the metadata holds a \<open>cache_key\<close> that is true (so not the empty
  string), and \<open>now - cache_time >= ttl\<close> is true.
\<close>

definition clearable :: "int \<Rightarrow> memory \<Rightarrow> bool" where
  "clearable now m \<longleftrightarrow>
     has_any_cache_key m \<and>
     age_ge now (md_get m ''cache_time'' (PyInt 0)) (md_get m ''ttl'' (PyInt CACHE_TTL)) = Inr True"

text \<open>The \<open>cache_time\<close> and \<open>ttl\<close> of a cache entry are numbers.\<close>

definition timed :: "memory \<Rightarrow> bool" where
  "timed m \<longleftrightarrow>
     (case age_ge 0 (md_get m ''cache_time'' (PyInt 0)) (md_get m ''ttl'' (PyInt CACHE_TTL)) of
        Inl e \<Rightarrow> False | Inr b \<Rightarrow> True)"

text \<open>
  What is left of the stored list \<open>ms\<close> once the records of \<open>snapshot\<close> that
  satisfy \<open>P\<close> and have an id have been deleted by id.
\<close>

definition purge :: "(memory \<Rightarrow> bool) \<Rightarrow> memory list \<Rightarrow> memory list \<Rightarrow> memory list" where
  "purge P snapshot ms =
     filter (\<lambda>m. mem_id m \<notin> mem_id ` {n \<in> set snapshot. P n \<and> id_assigned n}) ms"

text \<open>
  The state in which \<open>_get_cache_assistant_id\<close> answers \<open>aid\<close> and changes nothing,
  whatever the memories are.
\<close>

definition holder :: "string \<Rightarrow> state \<Rightarrow> bool" where
  "holder aid w \<longleftrightarrow>
     (\<forall>f. get_cache_assistant_id (w\<lparr>memories := f\<rparr>) = (Inr aid, w\<lparr>memories := f\<rparr>))"

text \<open>The ids of the stored memories are pairwise different.\<close>

definition distinct_ids :: "memory list \<Rightarrow> bool" where
  "distinct_ids ms = distinct (List.map_filter mem_id ms)"

text \<open>
  The ids of the records of \<open>ms\<close> that satisfy \<open>P\<close>, and the relation between the
  memories before and after a run that only deleted records of the container \<open>aid\<close>
  by such ids.
\<close>

definition ids_of :: "(memory \<Rightarrow> bool) \<Rightarrow> memory list \<Rightarrow> string set" where
  "ids_of P ms = {i. \<exists>n\<in>set ms. P n \<and> mem_id n = Some i}"

definition shrunk :: "(memory \<Rightarrow> bool) \<Rightarrow> memory list \<Rightarrow> string \<Rightarrow> (string \<Rightarrow> memory list) \<Rightarrow> (string \<Rightarrow> memory list) \<Rightarrow> bool" where
  "shrunk P snapshot aid f f' \<longleftrightarrow>
     (\<exists>D. D \<subseteq> ids_of P snapshot \<and> f' = f(aid := filter (\<lambda>m. mem_id m \<notin> Some ` D) (f aid)))"

text \<open>
  Notions for the round trip through \<open>json\<close>: a value whose dictionaries have
  pairwise different keys, as every Python dictionary has; the depth of recursion its
  text needs; a text that starts with a character no white space and no closing
  bracket, and one that is empty or goes on with a comma or a closing bracket; and that
  the text of a value, followed by such a text, is read back as the value.
\<close>

fun wf_val :: "pyval \<Rightarrow> bool" where
  "wf_val (PyList xs) = (\<forall>x\<in>set xs. wf_val x)"
| "wf_val (PyDict kvs) = (distinct (map fst kvs) \<and> (\<forall>kv\<in>set kvs. wf_val (snd kv)))"
| "wf_val v = True"

fun weight :: "pyval \<Rightarrow> nat" where
  "weight (PyList xs) = Suc (sum_list (map (\<lambda>x. Suc (weight x)) xs))"
| "weight (PyDict kvs) = Suc (sum_list (map (\<lambda>kv. Suc (weight (snd kv))) kvs))"
| "weight v = 1"

definition opens :: "string \<Rightarrow> bool" where
  "opens s \<longleftrightarrow> (case s of [] \<Rightarrow> False | c # _ \<Rightarrow> \<not> is_ws c \<and> c \<noteq> CHR '']'' \<and> c \<noteq> CHR ''}'')"

definition closes :: "string \<Rightarrow> bool" where
  "closes rest \<longleftrightarrow> (case rest of [] \<Rightarrow> True | c # _ \<Rightarrow> c = CHR '','' \<or> c = CHR '']'' \<or> c = CHR ''}'')"

definition parses :: "pyval \<Rightarrow> bool" where
  "parses v \<longleftrightarrow>
     (\<forall>n rest. weight v \<le> n \<longrightarrow> closes rest \<longrightarrow> parse_value n (json_encode v @ rest) = Some (v, rest))"

abbreviation "member_text kv \<equiv> json_quote (fst kv) @ '': '' @ json_encode (snd kv)"

text \<open>
  A parser run \<open>f\<close>, as a function of the bound on its recursion, gives the result
  \<open>(v, r)\<close> for every bound from twice \<open>consumed\<close> on.
\<close>

definition settled :: "(nat \<Rightarrow> (pyval \<times> string) option) \<Rightarrow> nat \<Rightarrow> pyval \<Rightarrow> string \<Rightarrow> bool" where
  "settled f consumed v r \<longleftrightarrow> (\<forall>n. 2 * consumed \<le> n \<longrightarrow> f n = Some (v, r))"

section \<open>Examples\<close>

text \<open>\<open>json.dumps\<close> as the cache takes it: on \<open>pyval\<close> it never raises.\<close>

definition json_dumps :: "pyval \<Rightarrow> exn + string" where
  "json_dumps v = Inr (json_encode v)"

text \<open>
  A platform with two assistants, the second one the cache holder, which holds an entry
  for the key \<open>k\<close> written at time 100 with a ttl of 50, a record without metadata and
  an entry for the key \<open>j\<close>. The same platform with a first remote call that fails.
\<close>

definition example_state :: state where
  "example_state =
     \<lparr>assistants =
        [\<lparr>a_id = ''a1'', a_name = ''notes'', a_system_prompt = None\<rparr>,
         \<lparr>a_id = ''a2'', a_name = ''bb_browser_cache'', a_system_prompt = None\<rparr>],
      memories = (\<lambda>aid.
        if aid = ''a1'' then
          [\<lparr>mem_id = Some ''n1'', content = ''Buy Milk'', metadata = None\<rparr>]
        else if aid = ''a2'' then
          [\<lparr>mem_id = Some ''m1'', content = ''7'',
            metadata = Some [(''cache_key'', PyStr ''k''), (''cache_time'', PyInt 100), (''ttl'', PyInt 50)]\<rparr>,
           \<lparr>mem_id = Some ''m2'', content = ''plain note'', metadata = None\<rparr>,
           \<lparr>mem_id = Some ''m3'', content = ''8'',
            metadata = Some [(''cache_key'', PyStr ''j''), (''cache_time'', PyInt 100), (''ttl'', PyInt 3600)]\<rparr>]
        else []),
      faults = [],
      cache_assistant_id = None\<rparr>"


text \<open>The hits one assistant contributes to the aggregate search.\<close>

definition hits_of :: "string \<Rightarrow> assistant \<Rightarrow> memory list \<Rightarrow> hit list" where
  "hits_of query a ms =
     map (\<lambda>m. \<lparr>hit_memory = m, hit_assistant_id = a_id a, hit_assistant_name = a_name a\<rparr>)
       (filter (\<lambda>m. contains query (py_lower (content m))) ms)"

text \<open>A request to create an assistant whose body has no \<open>name\<close>, from a session with a key.\<close>

definition request_without_name :: request where
  "request_without_name = \<lparr>session_api_key = Some ''key'', query_args = [], json = []\<rparr>"

text \<open>
  An API whose catalog is empty, and one with a single model; a stand-in for the
  construction of \<open>ModelInfo\<close> that reads the name only; the module's state at start
  and after the single model was fetched at time 1000.
\<close>

definition empty_catalog_api :: http_api where
  "empty_catalog_api n p = Inr (PyDict [(''total'', PyInt 0), (''models'', PyList [])])"

definition one_model_api :: http_api where
  "one_model_api n p = Inr (PyDict [(''total'', PyInt 1), (''models'', PyList [PyDict [(''name'', PyStr ''gpt'')]])])"

definition name_only_model_info :: "pyval \<Rightarrow> model_info option" where
  "name_only_model_info item =
     (case item of
        PyDict d \<Rightarrow>
          (case dict_get d ''name'' (PyStr []) of
             PyStr n \<Rightarrow> Some \<lparr>mi_id = n, mi_name = n, mi_provider = None, mi_description = None,
                               mi_max_tokens = None, mi_supports_streaming = None\<rparr>
           | _ \<Rightarrow> None)
      | _ \<Rightarrow> None)"

definition gpt_info :: model_info where
  "gpt_info = \<lparr>mi_id = ''gpt'', mi_name = ''gpt'', mi_provider = None, mi_description = None,
                mi_max_tokens = None, mi_supports_streaming = None\<rparr>"

definition initial_models_state :: models_state where
  "initial_models_state = \<lparr>models_cache = [], models_cache_time = 0, http_requests = 0\<rparr>"

definition warm_models_state :: models_state where
  "warm_models_state = \<lparr>models_cache = [gpt_info], models_cache_time = 1000, http_requests = 1\<rparr>"

text \<open>
  A platform for the search across all assistants: the second of three assistants is
  the cache holder, and its record matches the query \<open>MILK\<close> as four of the five
  records of the two others do. The search for \<open>MILK\<close> with at most 3 results, and
  with no limit given.
\<close>

definition search_state :: state where
  "search_state =
     \<lparr>assistants =
        [\<lparr>a_id = ''a1'', a_name = ''notes'', a_system_prompt = None\<rparr>,
         \<lparr>a_id = ''a2'', a_name = ''bb_browser_cache'', a_system_prompt = None\<rparr>,
         \<lparr>a_id = ''a3'', a_name = ''work'', a_system_prompt = None\<rparr>],
      memories = (\<lambda>aid.
        if aid = ''a1'' then
          [\<lparr>mem_id = Some ''n1'', content = ''Buy Milk'', metadata = None\<rparr>,
           \<lparr>mem_id = Some ''n2'', content = ''Call Bob'', metadata = None\<rparr>,
           \<lparr>mem_id = Some ''n3'', content = ''milk and honey'', metadata = None\<rparr>]
        else if aid = ''a2'' then
          [\<lparr>mem_id = Some ''c1'', content = ''milk prices'',
            metadata = Some [(''cache_key'', PyStr ''k''), (''cache_time'', PyInt 100), (''ttl'', PyInt 50)]\<rparr>]
        else if aid = ''a3'' then
          [\<lparr>mem_id = Some ''p1'', content = ''Almond MILK'', metadata = None\<rparr>,
           \<lparr>mem_id = Some ''p2'', content = ''Soy milk'', metadata = None\<rparr>]
        else []),
      faults = [],
      cache_assistant_id = None\<rparr>"

definition search_request :: request where
  "search_request =
     \<lparr>session_api_key = Some ''key'', query_args = [],
      json = [(''query'', PyStr ''MILK''), (''limit'', PyInt 3)]\<rparr>"

definition search_request_no_limit :: request where
  "search_request_no_limit =
     \<lparr>session_api_key = Some ''key'', query_args = [], json = [(''query'', PyStr ''MILK'')]\<rparr>"

definition no_single_search :: "request \<Rightarrow> response io" where
  "no_single_search req = return_io \<lparr>status = 200, body = MemoriesBody []\<rparr>"

section \<open>Properties of the cache\<close>

lemma fresh_id_nonempty: "fresh_id used \<noteq> []"
  by (simp add: fresh_id_def)

lemma fold_max_ge: "(n::nat) \<le> fold max xs n"
  by (induction xs arbitrary: n) (auto intro: order_trans [OF max.cobounded2])

lemma fold_max_mem: "x \<in> set xs \<Longrightarrow> (x::nat) \<le> fold max xs n"
proof (induction xs arbitrary: n)
  case Nil then show ?case by simp
next
  case (Cons y ys)
  show ?case
  proof (cases "x = y")
    case True
    have "x \<le> max y n" using True by simp
    also have "\<dots> \<le> fold max ys (max y n)" by (rule fold_max_ge)
    finally show ?thesis by simp
  next
    case False
    with Cons show ?thesis by simp
  qed
qed

lemma fresh_id_fresh: "fresh_id used \<notin> set used"
proof
  assume "fresh_id used \<in> set used"
  then have "length (fresh_id used) \<in> set (map length used)" by (metis image_eqI set_map)
  then have "length (fresh_id used) \<le> fold max (map length used) 0" by (rule fold_max_mem)
  then show False by (simp add: fresh_id_def)
qed

lemma remote_nofault: "faults w = [] \<Longrightarrow> remote act w = (Inr (fst (act w)), snd (act w))"
  by (simp add: remote_def split: prod.splits)


lemma get_cache_assistant_id_nofault:
  assumes "faults w = []"
  shows "\<exists>aid w1. get_cache_assistant_id w = (Inr aid, w1) \<and> faults w1 = []
           \<and> memories w1 = memories w \<and> holder aid w1"
  using assms
  apply (simp add: get_cache_assistant_id_def find_or_create_cache_assistant_def bind_io_def
      list_assistants_def create_assistant_def remote_def holder_def Let_def fresh_id_nonempty
      split: option.splits prod.splits list.splits)
  done

lemma gcai_props:
  assumes "faults w = []" "get_cache_assistant_id w = (r, w1)"
  shows "\<exists>aid. r = Inr aid \<and> holder aid w1" "faults w1 = []" "memories w1 = memories w"
  using get_cache_assistant_id_nofault [OF assms(1)] assms(2) by auto

lemma holder_self: "holder aid w \<Longrightarrow> get_cache_assistant_id w = (Inr aid, w)"
  unfolding holder_def
proof -
  assume "\<forall>f. get_cache_assistant_id (w\<lparr>memories := f\<rparr>) = (Inr aid, w\<lparr>memories := f\<rparr>)"
  then have "get_cache_assistant_id (w\<lparr>memories := memories w\<rparr>) = (Inr aid, w\<lparr>memories := memories w\<rparr>)"
    by blast
  then show "get_cache_assistant_id w = (Inr aid, w)" by simp
qed

lemma holder_upd: "holder aid w \<Longrightarrow> holder aid (w\<lparr>memories := f\<rparr>)"
  by (simp add: holder_def)

lemma delete_memory_nofault:
  "faults w = [] \<Longrightarrow> delete_memory i aid w =
     (Inr True, w\<lparr>memories := (memories w)(aid := filter (\<lambda>m. mem_id m \<noteq> Some i) (memories w aid))\<rparr>)"
  by (simp add: delete_memory_def remote_nofault)

lemma list_memories_nofault:
  "faults w = [] \<Longrightarrow> list_memories aid w = (Inr (memories w aid), w)"
  by (simp add: list_memories_def remote_nofault)

lemma purge_Cons_skip:
  "\<not> (P m \<and> id_assigned m) \<Longrightarrow> purge P (m # snapshot) ms = purge P snapshot ms"
  unfolding purge_def by (rule filter_cong) auto

lemma purge_Cons_del:
  "P m \<Longrightarrow> mem_id m = Some i \<Longrightarrow> i \<noteq> [] \<Longrightarrow>
   purge P (m # snapshot) ms = purge P snapshot (filter (\<lambda>m. mem_id m \<noteq> Some i) ms)"
proof -
  assume a: "P m" "mem_id m = Some i" "i \<noteq> []"
  have "mem_id x \<notin> mem_id ` {n \<in> set (m # snapshot). P n \<and> id_assigned n}
      \<longleftrightarrow> mem_id x \<noteq> Some i \<and> mem_id x \<notin> mem_id ` {n \<in> set snapshot. P n \<and> id_assigned n}" for x :: memory
  proof -
    have "{n \<in> set (m # snapshot). P n \<and> id_assigned n}
        = insert m {n \<in> set snapshot. P n \<and> id_assigned n}"
      using a by (auto simp: id_assigned_def)
    then show ?thesis using a by auto
  qed
  then show ?thesis
    unfolding purge_def filter_filter by (intro filter_cong) auto
qed

lemma purge_Nil: "purge P [] ms = ms"
  by (simp add: purge_def)

lemma state_mem_upd_triv: "w\<lparr>memories := (memories w)(aid := memories w aid)\<rparr> = w"
  by simp

lemma delete_loop_nofault:
  "faults w = [] \<Longrightarrow>
   delete_loop key aid snapshot w =
     (Inr (), w\<lparr>memories := (memories w)(aid := purge (\<lambda>m. has_cache_key m key) snapshot (memories w aid))\<rparr>)"
proof (induction snapshot arbitrary: w)
  case Nil
  then show ?case by (simp add: purge_Nil)
next
  case (Cons m ms)
  show ?case
  proof (cases "has_cache_key m key \<and> id_assigned m")
    case False
    then have "delete_loop key aid (m # ms) w = delete_loop key aid ms w"
      by (auto simp: id_assigned_def split: option.splits)
    with Cons False show ?thesis by (simp add: purge_Cons_skip)
  next
    case True
    then obtain i where i: "mem_id m = Some i" "i \<noteq> []"
      by (auto simp: id_assigned_def split: option.splits)
    let ?w' = "w\<lparr>memories := (memories w)(aid := filter (\<lambda>m. mem_id m \<noteq> Some i) (memories w aid))\<rparr>"
    have f: "faults ?w' = []" using Cons.prems by simp
    have "delete_loop key aid (m # ms) w = delete_loop key aid ms ?w'"
      using True i Cons.prems by (simp add: delete_memory_nofault)
    also have "\<dots> = (Inr (), ?w'\<lparr>memories := (memories ?w')(aid := purge (\<lambda>m. has_cache_key m key) ms (memories ?w' aid))\<rparr>)"
      by (rule Cons.IH [OF f])
    finally have "delete_loop key aid (m # ms) w =
        (Inr (), w\<lparr>memories := (memories w)(aid := purge (\<lambda>m. has_cache_key m key) ms
            (filter (\<lambda>m. mem_id m \<noteq> Some i) (memories w aid)))\<rparr>)"
      by simp
    moreover have "purge (\<lambda>m. has_cache_key m key) (m # ms) (memories w aid)
        = purge (\<lambda>m. has_cache_key m key) ms (filter (\<lambda>m. mem_id m \<noteq> Some i) (memories w aid))"
      using True i by (intro purge_Cons_del) auto
    ultimately show ?thesis by (simp del: delete_loop.simps add: fun_upd_def)
  qed
qed

lemma cache_delete_nofault:
  assumes "faults w = []" "get_cache_assistant_id w = (Inr aid, w1)"
  shows "cache_delete key w =
     (Inr True, w1\<lparr>memories := (memories w)(aid := purge (\<lambda>m. has_cache_key m key) (memories w aid) (memories w aid))\<rparr>)"
  using gcai_props [OF assms]
  by (simp add: cache_delete_def delete_body_def try_except_def bind_io_def assms(2) list_memories_nofault
      delete_loop_nofault return_io_def)

lemma store_memory_nofault:
  "faults w = [] \<Longrightarrow> store_memory c md aid w =
     (Inr \<lparr>mem_id = Some (fresh_id (List.map_filter mem_id (memories w aid))), content = c, metadata = Some md\<rparr>,
      w\<lparr>memories := (memories w)(aid := memories w aid @
          [\<lparr>mem_id = Some (fresh_id (List.map_filter mem_id (memories w aid))), content = c, metadata = Some md\<rparr>])\<rparr>)"
  by (simp add: store_memory_def remote_nofault Let_def)

lemma cache_set_nofault:
  assumes "faults w = []" "get_cache_assistant_id w = (Inr aid, w1)" "encode_value dumps v = Inr c"
  shows "cache_set dumps key v ttl now w =
     (Inr True, w1\<lparr>memories := (memories w)(aid :=
         purge (\<lambda>m. has_cache_key m key) (memories w aid) (memories w aid) @
         [\<lparr>mem_id = Some (fresh_id (List.map_filter mem_id
                (purge (\<lambda>m. has_cache_key m key) (memories w aid) (memories w aid)))),
           content = c,
           metadata = Some [(''cache_key'', PyStr key), (''cache_time'', PyInt now),
                            (''ttl'', PyInt (ttl_or_default ttl))]\<rparr>])\<rparr>)"
proof -
  from gcai_props [OF assms(1,2)] have h: "holder aid w1" and f: "faults w1 = []"
    and m: "memories w1 = memories w" by auto
  have d: "cache_delete key w1 = (Inr True, w1\<lparr>memories := (memories w)(aid :=
       purge (\<lambda>m. has_cache_key m key) (memories w aid) (memories w aid))\<rparr>)"
    using cache_delete_nofault [OF f holder_self [OF h], of key] m by simp
  show ?thesis
    by (simp add: cache_set_def set_body_def try_except_def bind_io_def assms(2,3) d f
        store_memory_nofault return_io_def)
qed

lemma cache_set_encode_fails:
  assumes "faults w = []" "get_cache_assistant_id w = (Inr aid, w1)" "encode_value dumps v = Inl e"
  shows "cache_set dumps key v ttl now w =
     (Inr False, w1\<lparr>memories := (memories w)(aid :=
         purge (\<lambda>m. has_cache_key m key) (memories w aid) (memories w aid))\<rparr>)"
proof -
  from gcai_props [OF assms(1,2)] have h: "holder aid w1" and f: "faults w1 = []"
    and m: "memories w1 = memories w" by auto
  have d: "cache_delete key w1 = (Inr True, w1\<lparr>memories := (memories w)(aid :=
       purge (\<lambda>m. has_cache_key m key) (memories w aid) (memories w aid))\<rparr>)"
    using cache_delete_nofault [OF f holder_self [OF h], of key] m by simp
  show ?thesis
    by (simp add: cache_set_def set_body_def try_except_def bind_io_def assms(2,3) d f)
qed

lemma get_loop_skip:
  "\<forall>m\<in>set ms. \<not> has_cache_key m key \<Longrightarrow>
   get_loop loads key ttl now (ms @ rest) w = get_loop loads key ttl now rest w"
  by (induction ms) auto

lemma purge_no_match:
  assumes "\<forall>m\<in>set ms. P m \<longrightarrow> id_assigned m"
  shows "\<forall>m\<in>set (purge P ms ms). \<not> P m"
  using assms by (auto simp: purge_def)

lemma purge_none:
  assumes "\<forall>m\<in>set snapshot. \<not> (P m \<and> id_assigned m)"
  shows "purge P snapshot ms = ms"
proof -
  have e: "{n \<in> set snapshot. P n \<and> id_assigned n} = {}" using assms by auto
  show ?thesis unfolding purge_def e by simp
qed

lemma purge_purge: "purge P (purge P ms ms) (purge P ms ms) = purge P ms ms"
proof (rule purge_none, rule ballI)
  fix m assume "m \<in> set (purge P ms ms)"
  then have "m \<in> set ms" "mem_id m \<notin> mem_id ` {n \<in> set ms. P n \<and> id_assigned n}"
    by (auto simp: purge_def)
  then show "\<not> (P m \<and> id_assigned m)" by blast
qed

lemma cache_get_nofault:
  assumes "faults w = []" "get_cache_assistant_id w = (Inr aid, w1)"
  shows "cache_get loads key ttl now w =
           try_except (get_loop loads key ttl now (memories w aid)) PyNone w1"
  using gcai_props [OF assms]
  by (simp add: cache_get_def get_body_def try_except_def bind_io_def assms(2) list_memories_nofault)

lemma has_cache_key_new [simp]:
  "has_cache_key \<lparr>mem_id = i, content = c, metadata = Some [(''cache_key'', PyStr key), (''cache_time'', PyInt t0), (''ttl'', PyInt l)]\<rparr> key' \<longleftrightarrow> key = key'"
  by (auto simp: has_cache_key_def)

lemma age_lt_new [simp]:
  "age_lt now (md_get \<lparr>mem_id = i, content = c, metadata = Some [(''cache_key'', PyStr key), (''cache_time'', PyInt t0), (''ttl'', PyInt l)]\<rparr> ''cache_time'' d)
     (md_get \<lparr>mem_id = i, content = c, metadata = Some [(''cache_key'', PyStr key), (''cache_time'', PyInt t0), (''ttl'', PyInt l)]\<rparr> ''ttl'' d') = Inr (now - t0 < l)"
  by (simp add: age_lt_def md_get_def)


lemma get_loop_new_valid:
  assumes "m = \<lparr>mem_id = i, content = c, metadata = Some [(''cache_key'', PyStr key), (''cache_time'', PyInt t0), (''ttl'', PyInt l)]\<rparr>"
    and "t1 - t0 < l"
  shows "get_loop loads key ttl' t1 [m] w = (Inr (decode_content loads c), w)"
  using assms by simp

lemma set_then_get_valid:
  assumes nf: "faults w = []"
    and aid: "fst (get_cache_assistant_id w) = Inr aid"
    and ids: "\<forall>m\<in>set (memories w aid). has_cache_key m key \<longrightarrow> id_assigned m"
    and enc: "encode_value dumps v = Inr c"
    and fresh: "t1 - t0 < ttl_or_default ttl"
  shows "fst (cache_get loads key ttl' t1 (snd (cache_set dumps key v ttl t0 w)))
           = Inr (decode_content loads c)"
proof -
  obtain w1 where g: "get_cache_assistant_id w = (Inr aid, w1)"
    using aid by (cases "get_cache_assistant_id w") auto
  from gcai_props [OF nf g] have h: "holder aid w1" and f: "faults w1 = []" by auto
  define P where "P = purge (\<lambda>m. has_cache_key m key) (memories w aid) (memories w aid)"
  define new where "new = \<lparr>mem_id = Some (fresh_id (List.map_filter mem_id P)), content = c,
           metadata = Some [(''cache_key'', PyStr key), (''cache_time'', PyInt t0),
                            (''ttl'', PyInt (ttl_or_default ttl))]\<rparr>"
  define w3 where "w3 = w1\<lparr>memories := (memories w)(aid := P @ [new])\<rparr>"
  have s: "cache_set dumps key v ttl t0 w = (Inr True, w3)"
    unfolding w3_def new_def P_def by (rule cache_set_nofault [OF nf g enc])
  have f3: "faults w3 = []" using f by (simp add: w3_def)
  have g3: "get_cache_assistant_id w3 = (Inr aid, w3)"
    unfolding w3_def by (rule holder_self [OF holder_upd [OF h]])
  have m3: "memories w3 aid = P @ [new]" by (simp add: w3_def)
  have nm: "\<forall>m\<in>set P. \<not> has_cache_key m key"
    unfolding P_def by (rule purge_no_match [OF ids])
  have "cache_get loads key ttl' t1 w3 =
      try_except (get_loop loads key ttl' t1 (P @ [new])) PyNone w3"
    using cache_get_nofault [OF f3 g3] m3 by simp
  moreover have "get_loop loads key ttl' t1 (P @ [new]) w3 = get_loop loads key ttl' t1 [new] w3"
    by (rule get_loop_skip [OF nm])
  moreover have "get_loop loads key ttl' t1 [new] w3 = (Inr (decode_content loads c), w3)"
    by (rule get_loop_new_valid [OF new_def fresh])
  ultimately show ?thesis
    by (simp add: s try_except_def)
qed

lemma get_loop_new_expired:
  assumes "m = \<lparr>mem_id = i, content = c, metadata = Some [(''cache_key'', PyStr key), (''cache_time'', PyInt t0), (''ttl'', PyInt l)]\<rparr>"
    and "t1 - t0 \<ge> l"
  shows "get_loop loads key ttl' t1 [m] w = (Inr PyNone, snd (cache_delete key w))"
  using assms by (simp split: prod.splits)

lemma id_assigned_new:
  "id_assigned \<lparr>mem_id = Some (fresh_id used), content = c, metadata = md\<rparr>"
  by (simp add: id_assigned_def fresh_id_nonempty)

text \<open>
  What \<open>get\<close> does once the ttl stored with the entry has elapsed since \<open>set\<close>
  wrote it: it returns \<open>None\<close> and deletes the entry. The stored ttl is
  \<open>ttl or 3600\<close>; no remote call fails and the entries for the key have ids.
\<close>

lemma get_after_stored_ttl:
  assumes nf: "faults w = []"
    and aid: "fst (get_cache_assistant_id w) = Inr aid"
    and ids: "\<forall>m\<in>set (memories w aid). has_cache_key m key \<longrightarrow> id_assigned m"
    and old: "t1 - t0 \<ge> ttl_or_default ttl"
  shows "fst (cache_get loads key ttl' t1 (snd (cache_set dumps key v ttl t0 w))) = Inr PyNone
     \<and> (\<forall>m\<in>set (memories (snd (cache_get loads key ttl' t1 (snd (cache_set dumps key v ttl t0 w)))) aid).
           \<not> has_cache_key m key)
     \<and> (\<forall>c. encode_value dumps v = Inr c \<longrightarrow>
           (\<exists>m\<in>set (memories (snd (cache_set dumps key v ttl t0 w)) aid).
              content m = c
            \<and> metadata m = Some [(''cache_key'', PyStr key), (''cache_time'', PyInt t0),
                                   (''ttl'', PyInt (ttl_or_default ttl))]))"
proof -
  obtain w1 where g: "get_cache_assistant_id w = (Inr aid, w1)"
    using aid by (cases "get_cache_assistant_id w") auto
  from gcai_props [OF nf g] have h: "holder aid w1" and f: "faults w1 = []" by auto
  define P where "P = purge (\<lambda>m. has_cache_key m key) (memories w aid) (memories w aid)"
  have nm: "\<forall>m\<in>set P. \<not> has_cache_key m key"
    unfolding P_def by (rule purge_no_match [OF ids])
  show ?thesis
  proof (cases "encode_value dumps v")
    case (Inl e)
    define w2 where "w2 = w1\<lparr>memories := (memories w)(aid := P)\<rparr>"
    have s: "cache_set dumps key v ttl t0 w = (Inr False, w2)"
      unfolding w2_def P_def by (rule cache_set_encode_fails [OF nf g Inl])
    have f2: "faults w2 = []" using f by (simp add: w2_def)
    have g2: "get_cache_assistant_id w2 = (Inr aid, w2)"
      unfolding w2_def by (rule holder_self [OF holder_upd [OF h]])
    have m2: "memories w2 aid = P" by (simp add: w2_def)
    have "get_loop loads key ttl' t1 (P @ []) w2 = get_loop loads key ttl' t1 [] w2"
      by (rule get_loop_skip [OF nm])
    then have "cache_get loads key ttl' t1 w2 = (Inr PyNone, w2)"
      using cache_get_nofault [OF f2 g2, of loads key ttl' t1] m2 by (simp add: try_except_def)
    then show ?thesis using s m2 nm Inl by simp
  next
    case (Inr c)
    define new where "new = \<lparr>mem_id = Some (fresh_id (List.map_filter mem_id P)), content = c,
           metadata = Some [(''cache_key'', PyStr key), (''cache_time'', PyInt t0),
                            (''ttl'', PyInt (ttl_or_default ttl))]\<rparr>"
    define w3 where "w3 = w1\<lparr>memories := (memories w)(aid := P @ [new])\<rparr>"
    have s: "cache_set dumps key v ttl t0 w = (Inr True, w3)"
      unfolding w3_def new_def P_def by (rule cache_set_nofault [OF nf g Inr])
    have f3: "faults w3 = []" using f by (simp add: w3_def)
    have g3: "get_cache_assistant_id w3 = (Inr aid, w3)"
      unfolding w3_def by (rule holder_self [OF holder_upd [OF h]])
    have m3: "memories w3 aid = P @ [new]" by (simp add: w3_def)
    have kn: "has_cache_key new key" "content new = c" "id_assigned new"
      "metadata new = Some [(''cache_key'', PyStr key), (''cache_time'', PyInt t0),
                            (''ttl'', PyInt (ttl_or_default ttl))]"
      by (simp_all add: new_def id_assigned_new)
    have d: "cache_delete key w3 = (Inr True, w3\<lparr>memories := (memories w3)(aid :=
         purge (\<lambda>m. has_cache_key m key) (P @ [new]) (P @ [new]))\<rparr>)"
      using cache_delete_nofault [OF f3 g3, of key] m3 by simp
    have "\<forall>m\<in>set (P @ [new]). has_cache_key m key \<longrightarrow> id_assigned m"
      using nm kn by auto
    then have nm4: "\<forall>m\<in>set (purge (\<lambda>m. has_cache_key m key) (P @ [new]) (P @ [new])). \<not> has_cache_key m key"
      by (rule purge_no_match)
    have "cache_get loads key ttl' t1 w3 =
        try_except (get_loop loads key ttl' t1 (P @ [new])) PyNone w3"
      using cache_get_nofault [OF f3 g3] m3 by simp
    moreover have "get_loop loads key ttl' t1 (P @ [new]) w3 = get_loop loads key ttl' t1 [new] w3"
      by (rule get_loop_skip [OF nm])
    moreover have "get_loop loads key ttl' t1 [new] w3 = (Inr PyNone, snd (cache_delete key w3))"
      by (rule get_loop_new_expired [OF new_def old])
    ultimately have "cache_get loads key ttl' t1 w3 = (Inr PyNone, snd (cache_delete key w3))"
      by (simp add: try_except_def)
    then show ?thesis using s d nm4 m3 kn Inr by auto
  qed
qed

lemma has_cache_key_iff:
  "has_cache_key m key \<longleftrightarrow> (\<exists>md. metadata m = Some md \<and> map_of md ''cache_key'' = Some (PyStr key))"
  by (auto simp: has_cache_key_def split: option.splits)

text \<open>
  Claim C2, amended. For a ttl given to \<open>set\<close> that is not 0 (and for no ttl, which
  stands for 3600 seconds): once that many seconds have elapsed since \<open>set\<close>, that is
  \<open>now - cache_time >= ttl\<close>, \<open>get\<close> returns \<open>None\<close>, and after it no memory of
  the holder has a metadata \<open>cache_key\<close> equal to the key; the entry that \<open>set\<close>
  wrote, with the time of the call and the ttl given, was there before, when \<open>set\<close>
  could encode the value. Here no remote call fails and the entries for the key have
  ids.
\<close>

theorem get_after_ttl_elapsed:
  assumes nf: "faults w = []"
    and aid: "fst (get_cache_assistant_id w) = Inr aid"
    and ids: "\<forall>m\<in>set (memories w aid). has_cache_key m key \<longrightarrow> id_assigned m"
    and given: "ttl \<noteq> Some 0"
    and old: "t1 - t0 \<ge> (case ttl of None \<Rightarrow> 3600 | Some t \<Rightarrow> t)"
  shows "fst (cache_get loads key ttl' t1 (snd (cache_set dumps key v ttl t0 w))) = Inr PyNone
     \<and> (\<forall>m\<in>set (memories (snd (cache_get loads key ttl' t1 (snd (cache_set dumps key v ttl t0 w)))) aid).
           \<forall>md. metadata m = Some md \<longrightarrow> map_of md ''cache_key'' \<noteq> Some (PyStr key))
     \<and> (\<forall>c. encode_value dumps v = Inr c \<longrightarrow>
           (\<exists>m\<in>set (memories (snd (cache_set dumps key v ttl t0 w)) aid).
              content m = c
            \<and> metadata m = Some [(''cache_key'', PyStr key), (''cache_time'', PyInt t0),
                                   (''ttl'', PyInt (case ttl of None \<Rightarrow> 3600 | Some t \<Rightarrow> t))]))"
proof -
  have e: "ttl_or_default ttl = (case ttl of None \<Rightarrow> 3600 | Some t \<Rightarrow> t)"
    using given by (simp add: ttl_or_default_def CACHE_TTL_def split: option.splits)
  have old': "t1 - t0 \<ge> ttl_or_default ttl" using old e by simp
  from get_after_stored_ttl [OF nf aid ids old', of loads ttl' dumps v]
  show ?thesis unfolding e by (simp add: has_cache_key_iff)
qed

lemma distinct_ids_eq:
  "distinct_ids ms \<Longrightarrow> m \<in> set ms \<Longrightarrow> n \<in> set ms \<Longrightarrow> mem_id m = Some i \<Longrightarrow> mem_id n = Some i
   \<Longrightarrow> m = n"
proof (induction ms)
  case Nil
  then show ?case by simp
next
  case (Cons x xs)
  have tail: "distinct_ids xs"
    using Cons.prems(1) by (auto simp: distinct_ids_def split: option.splits)
  have head: "mem_id x = Some i \<Longrightarrow> y \<in> set xs \<Longrightarrow> mem_id y \<noteq> Some i" for y
    using Cons.prems(1) by (force simp: distinct_ids_def List.map_filter_def)
  show ?case
  proof (cases "m = x")
    case True
    then show ?thesis using Cons.prems head by auto
  next
    case False
    then have m: "m \<in> set xs" using Cons.prems by simp
    show ?thesis
    proof (cases "n = x")
      case True
      then show ?thesis using Cons.prems head m by auto
    next
      case False
      then have "n \<in> set xs" using Cons.prems by simp
      then show ?thesis using Cons.IH [OF tail m] Cons.prems by simp
    qed
  qed
qed

lemma purge_distinct:
  assumes d: "distinct_ids ms" and a: "\<forall>m\<in>set ms. P m \<longrightarrow> id_assigned m"
  shows "purge P ms ms = filter (\<lambda>m. \<not> P m) ms"
  unfolding purge_def
proof (rule filter_cong [OF refl])
  fix m assume m: "m \<in> set ms"
  show "(mem_id m \<notin> mem_id ` {n \<in> set ms. P n \<and> id_assigned n}) = (\<not> P m)"
  proof
    assume "mem_id m \<notin> mem_id ` {n \<in> set ms. P n \<and> id_assigned n}"
    then show "\<not> P m" using m a by blast
  next
    assume np: "\<not> P m"
    show "mem_id m \<notin> mem_id ` {n \<in> set ms. P n \<and> id_assigned n}"
    proof
      assume "mem_id m \<in> mem_id ` {n \<in> set ms. P n \<and> id_assigned n}"
      then obtain n where n: "n \<in> set ms" "P n" "id_assigned n" "mem_id m = mem_id n" by auto
      from n(3) obtain i where "mem_id n = Some i"
        by (auto simp: id_assigned_def split: option.splits)
      with n(4) have "m = n" using distinct_ids_eq [OF d m n(1)] by simp
      with n(2) np show False by simp
    qed
  qed
qed

lemma clear_loop_nofault:
  "faults w = [] \<Longrightarrow> \<forall>m\<in>set snapshot. has_any_cache_key m \<longrightarrow> timed m \<Longrightarrow>
   clear_loop now aid snapshot n w =
     (Inr (n + int (length (filter (\<lambda>m. clearable now m \<and> id_assigned m) snapshot))),
      w\<lparr>memories := (memories w)(aid := purge (clearable now) snapshot (memories w aid))\<rparr>)"
proof (induction snapshot arbitrary: w n)
  case Nil
  then show ?case by (simp add: purge_Nil)
next
  case (Cons m ms)
  have tl: "\<forall>m\<in>set ms. has_any_cache_key m \<longrightarrow> timed m" using Cons.prems(2) by simp
  show ?case
  proof (cases "clearable now m \<and> id_assigned m")
    case False
    have "clear_loop now aid (m # ms) n w = clear_loop now aid ms n w"
    proof (cases "has_any_cache_key m")
      case True
      then have "timed m" using Cons.prems(2) by simp
      then obtain b where b: "age_ge now (md_get m ''cache_time'' (PyInt 0)) (md_get m ''ttl'' (PyInt CACHE_TTL)) = Inr b"
        by (auto simp: timed_def age_ge_def split: sum.splits)
      show ?thesis using True b False
        by (auto simp: clearable_def id_assigned_def split: option.splits bool.splits)
    next
      case False
      then show ?thesis by simp
    qed
    with Cons.IH [OF Cons.prems(1) tl] False show ?thesis by (simp add: purge_Cons_skip)
  next
    case True
    then obtain i where i: "mem_id m = Some i" "i \<noteq> []"
      by (auto simp: id_assigned_def split: option.splits)
    let ?w' = "w\<lparr>memories := (memories w)(aid := filter (\<lambda>m. mem_id m \<noteq> Some i) (memories w aid))\<rparr>"
    have f: "faults ?w' = []" using Cons.prems by simp
    have "clear_loop now aid (m # ms) n w = clear_loop now aid ms (n + 1) ?w'"
      using True i Cons.prems(1) by (simp add: delete_memory_nofault clearable_def)
    also have "\<dots> = (Inr (n + 1 + int (length (filter (\<lambda>m. clearable now m \<and> id_assigned m) ms))),
        ?w'\<lparr>memories := (memories ?w')(aid := purge (clearable now) ms (memories ?w' aid))\<rparr>)"
      by (rule Cons.IH [OF f tl])
    finally have "clear_loop now aid (m # ms) n w =
        (Inr (n + 1 + int (length (filter (\<lambda>m. clearable now m \<and> id_assigned m) ms))),
         w\<lparr>memories := (memories w)(aid := purge (clearable now) ms
            (filter (\<lambda>m. mem_id m \<noteq> Some i) (memories w aid)))\<rparr>)"
      by simp
    moreover have "purge (clearable now) (m # ms) (memories w aid)
        = purge (clearable now) ms (filter (\<lambda>m. mem_id m \<noteq> Some i) (memories w aid))"
      using True i by (intro purge_Cons_del) auto
    ultimately show ?thesis using True by (simp del: clear_loop.simps add: fun_upd_def)
  qed
qed

lemma clear_expired_nofault:
  assumes "faults w = []" "get_cache_assistant_id w = (Inr aid, w1)"
    "\<forall>m\<in>set (memories w aid). has_any_cache_key m \<longrightarrow> timed m"
  shows "clear_expired now w =
     (Inr (int (length (filter (\<lambda>m. clearable now m \<and> id_assigned m) (memories w aid)))),
      w1\<lparr>memories := (memories w)(aid := purge (clearable now) (memories w aid) (memories w aid))\<rparr>)"
  using gcai_props [OF assms(1,2)] assms(3)
  by (simp add: clear_expired_def clear_expired_body_def try_except_def bind_io_def assms(2)
      list_memories_nofault clear_loop_nofault del: clear_loop.simps)

text \<open>
  What \<open>clear_expired\<close> does when no remote call fails, the records have pairwise
  different ids and the times of the entries are numbers: it deletes the records that
  pass the test of its loop, leaves the others in their order, returns the number
  deleted and does not touch the other containers.
\<close>

lemma clear_expired_by_its_test:
  assumes nf: "faults w = []"
    and aid: "fst (get_cache_assistant_id w) = Inr aid"
    and ids: "\<forall>m\<in>set (memories w aid). id_assigned m"
    and dis: "distinct_ids (memories w aid)"
    and num: "\<forall>m\<in>set (memories w aid). has_any_cache_key m \<longrightarrow> timed m"
  shows "fst (clear_expired now w) = Inr (int (length (filter (clearable now) (memories w aid))))
     \<and> memories (snd (clear_expired now w)) aid = filter (\<lambda>m. \<not> clearable now m) (memories w aid)
     \<and> (\<forall>a. a \<noteq> aid \<longrightarrow> memories (snd (clear_expired now w)) a = memories w a)"
proof -
  obtain w1 where g: "get_cache_assistant_id w = (Inr aid, w1)"
    using aid by (cases "get_cache_assistant_id w") auto
  have c: "filter (\<lambda>m. clearable now m \<and> id_assigned m) (memories w aid) = filter (clearable now) (memories w aid)"
    by (rule filter_cong) (use ids in auto)
  have p: "purge (clearable now) (memories w aid) (memories w aid) = filter (\<lambda>m. \<not> clearable now m) (memories w aid)"
    by (rule purge_distinct [OF dis]) (use ids in auto)
  show ?thesis
    using clear_expired_nofault [OF nf g num, of now] by (simp add: c p)
qed

text \<open>
  Claim C7. When no remote call fails, \<open>delete\<close> returns \<open>True\<close>; when no
  memory of the holder carries the key, it leaves the stored memories as they are; and
  a second \<open>delete\<close> of the same key returns \<open>True\<close> and changes nothing more.
\<close>

theorem delete_idempotent:
  assumes nf: "faults w = []"
  shows "fst (cache_delete key w) = Inr True
     \<and> (\<forall>aid. fst (get_cache_assistant_id w) = Inr aid
            \<and> (\<forall>m\<in>set (memories w aid). \<not> has_cache_key m key)
          \<longrightarrow> memories (snd (cache_delete key w)) = memories w)
     \<and> cache_delete key (snd (cache_delete key w)) = (Inr True, snd (cache_delete key w))"
proof -
  from get_cache_assistant_id_nofault [OF nf] obtain a w1
    where g: "get_cache_assistant_id w = (Inr a, w1)" by blast
  from gcai_props [OF nf g] have h: "holder a w1" and f: "faults w1 = []" by auto
  define P where "P = purge (\<lambda>m. has_cache_key m key) (memories w a) (memories w a)"
  define w2 where "w2 = w1\<lparr>memories := (memories w)(a := P)\<rparr>"
  have d: "cache_delete key w = (Inr True, w2)"
    unfolding w2_def P_def by (rule cache_delete_nofault [OF nf g])
  have f2: "faults w2 = []" using f by (simp add: w2_def)
  have g2: "get_cache_assistant_id w2 = (Inr a, w2)"
    unfolding w2_def by (rule holder_self [OF holder_upd [OF h]])
  have m2: "memories w2 a = P" by (simp add: w2_def)
  have pp: "purge (\<lambda>m. has_cache_key m key) P P = P"
    unfolding P_def by (rule purge_purge)
  have "cache_delete key w2 = (Inr True, w2\<lparr>memories := (memories w2)(a := P)\<rparr>)"
    using cache_delete_nofault [OF f2 g2, of key] m2 pp by simp
  also have "w2\<lparr>memories := (memories w2)(a := P)\<rparr> = w2"
    by (simp add: w2_def)
  finally have twice: "cache_delete key w2 = (Inr True, w2)" .
  have same: "memories w2 = memories w"
    if "\<forall>m\<in>set (memories w a). \<not> has_cache_key m key"
  proof -
    have "P = memories w a" unfolding P_def by (rule purge_none) (use that in auto)
    then show ?thesis by (simp add: w2_def)
  qed
  show ?thesis using d twice same g by auto
qed

lemma gcai_memories: "memories (snd (get_cache_assistant_id w)) = memories w"
  by (simp add: get_cache_assistant_id_def find_or_create_cache_assistant_def bind_io_def
      list_assistants_def create_assistant_def remote_def Let_def
      split: option.splits prod.splits list.splits sum.splits)

lemma list_memories_frame:
  "list_memories aid w = (r, w') \<Longrightarrow> memories w' = memories w \<and> (\<forall>ms. r = Inr ms \<longrightarrow> ms = memories w aid)"
  by (auto simp: list_memories_def remote_def split: list.splits option.splits)

lemma delete_memory_frame:
  "delete_memory i aid w = (r, w') \<Longrightarrow>
     memories w' = memories w \<or>
     memories w' = (memories w)(aid := filter (\<lambda>m. mem_id m \<noteq> Some i) (memories w aid))"
  by (auto simp: delete_memory_def remote_def split: list.splits option.splits)

lemma shrunk_refl: "shrunk P snapshot aid f f"
  unfolding shrunk_def by (rule exI [of _ "{}"]) simp

lemma ids_of_Cons: "ids_of P ms \<subseteq> ids_of P (m # ms)"
  unfolding ids_of_def by auto

lemma shrunk_tail: "shrunk P ms aid f f' \<Longrightarrow> shrunk P (m # ms) aid f f'"
  unfolding shrunk_def using ids_of_Cons [of P ms m] by blast

lemma shrunk_step:
  assumes "P m" "mem_id m = Some i"
    and "shrunk P ms aid (f(aid := filter (\<lambda>m. mem_id m \<noteq> Some i) (f aid))) f'"
  shows "shrunk P (m # ms) aid f f'"
proof -
  from assms(3) obtain D where D: "D \<subseteq> ids_of P ms"
    and f': "f' = (f(aid := filter (\<lambda>m. mem_id m \<noteq> Some i) (f aid)))
        (aid := filter (\<lambda>m. mem_id m \<notin> Some ` D) ((f(aid := filter (\<lambda>m. mem_id m \<noteq> Some i) (f aid))) aid))"
    unfolding shrunk_def by blast
  have "i \<in> ids_of P (m # ms)" using assms(1,2) unfolding ids_of_def by auto
  then have sub: "insert i D \<subseteq> ids_of P (m # ms)"
    using D ids_of_Cons [of P ms m] by blast
  have "filter (\<lambda>m. mem_id m \<notin> Some ` D) (filter (\<lambda>m. mem_id m \<noteq> Some i) (f aid))
      = filter (\<lambda>m. mem_id m \<notin> Some ` insert i D) (f aid)"
    unfolding filter_filter by (rule filter_cong) auto
  then have "f' = f(aid := filter (\<lambda>m. mem_id m \<notin> Some ` insert i D) (f aid))"
    unfolding f' by simp
  with sub show ?thesis unfolding shrunk_def by blast
qed

lemma delete_step_frame:
  assumes d: "delete_memory i aid w = (r1, w1)" and P: "P m" and i: "mem_id m = Some i"
    and rest: "shrunk P ms aid (memories w1) f'"
  shows "shrunk P (m # ms) aid (memories w) f'"
proof -
  from delete_memory_frame [OF d] show ?thesis
  proof
    assume "memories w1 = memories w"
    with rest show ?thesis by (simp add: shrunk_tail)
  next
    assume "memories w1 = (memories w)(aid := filter (\<lambda>m. mem_id m \<noteq> Some i) (memories w aid))"
    with rest show ?thesis using shrunk_step [where P = P and m = m, OF P i] by simp
  qed
qed

lemma delete_loop_frame:
  "delete_loop key aid snapshot w = (r, w') \<Longrightarrow>
   shrunk (\<lambda>m. has_cache_key m key) snapshot aid (memories w) (memories w')"
proof (induction snapshot arbitrary: w)
  case Nil
  then show ?case by (auto simp: shrunk_refl)
next
  case (Cons m ms)
  show ?case
  proof (cases "has_cache_key m key \<and> id_assigned m")
    case False
    then have "delete_loop key aid (m # ms) w = delete_loop key aid ms w"
      by (auto simp: id_assigned_def split: option.splits)
    with Cons.prems have "delete_loop key aid ms w = (r, w')" by simp
    from Cons.IH [OF this] show ?thesis by (rule shrunk_tail)
  next
    case True
    then obtain i where i: "mem_id m = Some i" "i \<noteq> []"
      by (auto simp: id_assigned_def split: option.splits)
    from True have k: "has_cache_key m key" by simp
    obtain r1 w1 where d: "delete_memory i aid w = (r1, w1)" by (cases "delete_memory i aid w")
    have "shrunk (\<lambda>m. has_cache_key m key) ms aid (memories w1) (memories w')"
    proof (cases r1)
      case (Inl e)
      then have "w' = w1" using Cons.prems k i d by simp
      then show ?thesis by (simp add: shrunk_refl)
    next
      case (Inr b)
      then have "delete_loop key aid ms w1 = (r, w')" using Cons.prems k i d by simp
      then show ?thesis by (rule Cons.IH)
    qed
    then show ?thesis
      by (rule delete_step_frame [where P = "\<lambda>m. has_cache_key m key" and m = m, OF d k i(1)])
  qed
qed

lemma clear_loop_frame:
  "clear_loop now aid snapshot n w = (r, w') \<Longrightarrow>
   shrunk (clearable now) snapshot aid (memories w) (memories w')"
proof (induction snapshot arbitrary: w n)
  case Nil
  then show ?case by (auto simp: shrunk_refl)
next
  case (Cons m ms)
  show ?case
  proof (cases "clearable now m \<and> id_assigned m")
    case True
    then obtain i where i: "mem_id m = Some i" "i \<noteq> []"
      by (auto simp: id_assigned_def split: option.splits)
    from True have k: "clearable now m" by simp
    obtain r1 w1 where d: "delete_memory i aid w = (r1, w1)" by (cases "delete_memory i aid w")
    have "shrunk (clearable now) ms aid (memories w1) (memories w')"
    proof (cases r1)
      case (Inl e)
      then have "w' = w1" using Cons.prems k i d by (simp add: clearable_def)
      then show ?thesis by (simp add: shrunk_refl)
    next
      case (Inr b)
      then have "clear_loop now aid ms (n + 1) w1 = (r, w')"
        using Cons.prems k i d by (simp add: clearable_def)
      then show ?thesis by (rule Cons.IH)
    qed
    then show ?thesis
      by (rule delete_step_frame [where P = "clearable now" and m = m, OF d k i(1)])
  next
    case False
    have "w' = w \<or> clear_loop now aid ms n w = (r, w')"
      using Cons.prems False
      by (auto simp: clearable_def id_assigned_def split: if_splits sum.splits bool.splits option.splits)
    then show ?thesis
    proof
      assume "w' = w"
      then show ?thesis by (simp add: shrunk_refl)
    next
      assume "clear_loop now aid ms n w = (r, w')"
      from Cons.IH [OF this] show ?thesis by (rule shrunk_tail)
    qed
  qed
qed

lemma delete_body_frame:
  "\<exists>aid. shrunk (\<lambda>m. has_cache_key m key) (memories w aid) aid (memories w)
            (memories (snd (delete_body key w)))"
proof -
  obtain r0 w0 where g: "get_cache_assistant_id w = (r0, w0)" by (cases "get_cache_assistant_id w")
  have m0: "memories w0 = memories w" using gcai_memories [of w] g by simp
  show ?thesis
  proof (cases r0)
    case (Inl e)
    then have "snd (delete_body key w) = w0" by (simp add: delete_body_def bind_io_def g)
    then show ?thesis using m0 shrunk_refl by auto
  next
    case (Inr aid)
    obtain r1 w1 where l: "list_memories aid w0 = (r1, w1)" by (cases "list_memories aid w0")
    note lf = list_memories_frame [OF l]
    show ?thesis
    proof (cases r1)
      case (Inl e)
      then have "snd (delete_body key w) = w1" by (simp add: delete_body_def bind_io_def g Inr l)
      then show ?thesis using m0 lf shrunk_refl by auto
    next
      case ms: (Inr ms)
      then have ms_eq: "ms = memories w aid" using lf m0 by simp
      obtain r2 w2 where d: "delete_loop key aid ms w1 = (r2, w2)" by (cases "delete_loop key aid ms w1")
      have "snd (delete_body key w) = w2"
        by (cases r2) (simp_all add: delete_body_def bind_io_def g Inr l ms d return_io_def)
      moreover have "shrunk (\<lambda>m. has_cache_key m key) (memories w aid) aid (memories w) (memories w2)"
        using delete_loop_frame [OF d] ms_eq lf m0 by simp
      ultimately show ?thesis by auto
    qed
  qed
qed

lemma clear_expired_body_frame:
  "\<exists>aid. shrunk (clearable now) (memories w aid) aid (memories w)
            (memories (snd (clear_expired_body now w)))"
proof -
  obtain r0 w0 where g: "get_cache_assistant_id w = (r0, w0)" by (cases "get_cache_assistant_id w")
  have m0: "memories w0 = memories w" using gcai_memories [of w] g by simp
  show ?thesis
  proof (cases r0)
    case (Inl e)
    then have "snd (clear_expired_body now w) = w0" by (simp add: clear_expired_body_def bind_io_def g)
    then show ?thesis using m0 shrunk_refl by auto
  next
    case (Inr aid)
    obtain r1 w1 where l: "list_memories aid w0 = (r1, w1)" by (cases "list_memories aid w0")
    note lf = list_memories_frame [OF l]
    show ?thesis
    proof (cases r1)
      case (Inl e)
      then have "snd (clear_expired_body now w) = w1"
        by (simp add: clear_expired_body_def bind_io_def g Inr l)
      then show ?thesis using m0 lf shrunk_refl by auto
    next
      case ms: (Inr ms)
      then have ms_eq: "ms = memories w aid" using lf m0 by simp
      obtain r2 w2 where d: "clear_loop now aid ms 0 w1 = (r2, w2)" by (cases "clear_loop now aid ms 0 w1")
      have "snd (clear_expired_body now w) = w2"
        by (simp add: clear_expired_body_def bind_io_def g Inr l ms d)
      moreover have "shrunk (clearable now) (memories w aid) aid (memories w) (memories w2)"
        using clear_loop_frame [OF d] ms_eq lf m0 by simp
      ultimately show ?thesis by auto
    qed
  qed
qed

lemma snd_try_except: "snd (try_except m d w) = snd (m w)"
  by (simp add: try_except_def split: prod.splits sum.splits)

lemma shrunk_keeps:
  assumes s: "shrunk P (f aid) aid f f'" and d: "distinct_ids (f a)"
  shows "\<exists>Q. f' a = filter Q (f a) \<and> (\<forall>m\<in>set (f a). \<not> P m \<longrightarrow> Q m)"
proof -
  from s obtain D where D: "D \<subseteq> ids_of P (f aid)"
    and f': "f' = f(aid := filter (\<lambda>m. mem_id m \<notin> Some ` D) (f aid))"
    unfolding shrunk_def by blast
  show ?thesis
  proof (cases "a = aid")
    case False
    then have "f' a = filter (\<lambda>m. True) (f a)" using f' by simp
    then show ?thesis by blast
  next
    case True
    have "\<forall>m\<in>set (f a). \<not> P m \<longrightarrow> mem_id m \<notin> Some ` D"
    proof (intro ballI impI notI)
      fix m assume m: "m \<in> set (f a)" "\<not> P m" "mem_id m \<in> Some ` D"
      then obtain i where i: "mem_id m = Some i" "i \<in> D" by auto
      with D obtain n where n: "n \<in> set (f a)" "P n" "mem_id n = Some i"
        unfolding ids_of_def True by blast
      from distinct_ids_eq [OF d m(1) n(1) i(1) n(3)] n(2) m(2) show False by simp
    qed
    moreover have "f' a = filter (\<lambda>m. mem_id m \<notin> Some ` D) (f a)" using f' True by simp
    ultimately show ?thesis by blast
  qed
qed

lemma clearable_has_key: "clearable now m \<Longrightarrow> has_any_cache_key m"
  by (simp add: clearable_def)

text \<open>
  Claim C10. Whatever remote calls fail, \<open>delete(key)\<close> and \<open>clear_expired\<close> only
  remove records: every container is afterwards a filtering of what it was, which
  keeps every memory that does not carry the key (for \<open>delete\<close>) and every memory
  without a true \<open>cache_key\<close> (for \<open>clear_expired\<close>). The ids of the stored
  memories are pairwise different.
\<close>

theorem delete_and_clear_expired_frame:
  assumes "\<forall>a. distinct_ids (memories w a)"
  shows "(\<exists>Q. memories (snd (cache_delete key w)) a = filter Q (memories w a)
             \<and> (\<forall>m\<in>set (memories w a). \<not> has_cache_key m key \<longrightarrow> Q m))
       \<and> (\<exists>Q. memories (snd (clear_expired now w)) a = filter Q (memories w a)
             \<and> (\<forall>m\<in>set (memories w a). \<not> has_any_cache_key m \<longrightarrow> Q m))"
proof
  from delete_body_frame [of key w] obtain aid
    where "shrunk (\<lambda>m. has_cache_key m key) (memories w aid) aid (memories w)
            (memories (snd (cache_delete key w)))"
    by (auto simp: cache_delete_def snd_try_except)
  from shrunk_keeps [OF this] assms
  show "\<exists>Q. memories (snd (cache_delete key w)) a = filter Q (memories w a)
             \<and> (\<forall>m\<in>set (memories w a). \<not> has_cache_key m key \<longrightarrow> Q m)"
    by blast
next
  from clear_expired_body_frame [of now w] obtain aid
    where "shrunk (clearable now) (memories w aid) aid (memories w)
            (memories (snd (clear_expired now w)))"
    by (auto simp: clear_expired_def snd_try_except)
  from shrunk_keeps [OF this] assms
  obtain Q where "memories (snd (clear_expired now w)) a = filter Q (memories w a)"
    "\<forall>m\<in>set (memories w a). \<not> clearable now m \<longrightarrow> Q m" by blast
  then show "\<exists>Q. memories (snd (clear_expired now w)) a = filter Q (memories w a)
             \<and> (\<forall>m\<in>set (memories w a). \<not> has_any_cache_key m \<longrightarrow> Q m)"
    using clearable_has_key by blast
qed


section \<open>The cache on the example\<close>

lemmas ex_defs = example_state_def get_cache_assistant_id_def find_or_create_cache_assistant_def
  bind_io_def list_assistants_def remote_def CACHE_ASSISTANT_NAME_def

lemma ex_holder: "fst (get_cache_assistant_id example_state) = Inr ''a2''"
  by (simp add: ex_defs)

lemma ex_faults: "faults example_state = []"
  by (simp add: example_state_def)

lemma ex_ids: "\<forall>m\<in>set (memories example_state ''a2''). id_assigned m"
  by (simp add: example_state_def id_assigned_def)

lemma ex_distinct: "\<forall>a. distinct_ids (memories example_state a)"
  by (simp add: example_state_def distinct_ids_def)

lemma ex_timed: "\<forall>m\<in>set (memories example_state ''a2''). has_any_cache_key m \<longrightarrow> timed m"
  by (simp add: example_state_def timed_def has_any_cache_key_def age_ge_def md_get_def CACHE_TTL_def)

lemma example_served_before_ttl:
  "fst (cache_get json_loads ''k'' None 9
        (snd (cache_set json_dumps ''k'' (PyInt 7) (Some 10) 0 example_state))) = Inr (PyInt 7)"
  by code_simp

lemma example_entry_written:
  "filter (\<lambda>m. has_cache_key m ''k'')
      (memories (snd (cache_set json_dumps ''k'' (PyInt 7) (Some 10) 0 example_state)) ''a2'')
   = [\<lparr>mem_id = Some ''mmm'', content = ''7'',
        metadata = Some [(''cache_key'', PyStr ''k''), (''cache_time'', PyInt 0), (''ttl'', PyInt 10)]\<rparr>]"
  by code_simp

theorem get_after_ttl_elapsed_witness:
  "faults example_state = []
   \<and> fst (get_cache_assistant_id example_state) = Inr ''a2''
   \<and> filter (\<lambda>m. has_cache_key m ''k'' \<and> \<not> id_assigned m) (memories example_state ''a2'') = []
   \<and> Some (10::int) \<noteq> Some 0
   \<and> (10::int) - 0 \<ge> (case Some 10 of None \<Rightarrow> 3600 | Some t \<Rightarrow> t)
   \<and> filter (\<lambda>m. has_cache_key m ''k'')
        (memories (snd (cache_set json_dumps ''k'' (PyInt 7) (Some 10) 0 example_state)) ''a2'')
      = [\<lparr>mem_id = Some ''mmm'', content = ''7'',
          metadata = Some [(''cache_key'', PyStr ''k''), (''cache_time'', PyInt 0), (''ttl'', PyInt 10)]\<rparr>]
   \<and> fst (cache_get json_loads ''k'' None 9
        (snd (cache_set json_dumps ''k'' (PyInt 7) (Some 10) 0 example_state))) = Inr (PyInt 7)
   \<and> fst (cache_get json_loads ''k'' None 10
        (snd (cache_set json_dumps ''k'' (PyInt 7) (Some 10) 0 example_state))) = Inr PyNone
   \<and> filter (\<lambda>m. has_cache_key m ''k'')
        (memories (snd (cache_get json_loads ''k'' None 10
          (snd (cache_set json_dumps ''k'' (PyInt 7) (Some 10) 0 example_state)))) ''a2'') = []"
proof -
  have h3: "\<forall>m\<in>set (memories example_state ''a2''). has_cache_key m ''k'' \<longrightarrow> id_assigned m"
    using ex_ids by simp
  have h4: "Some (10::int) \<noteq> Some 0" by simp
  have h5: "(10::int) - 0 \<ge> (case Some 10 of None \<Rightarrow> 3600 | Some t \<Rightarrow> t)" by simp
  from get_after_ttl_elapsed [OF ex_faults ex_holder h3 h4 h5, of json_loads None json_dumps "PyInt 7"]
  have "fst (cache_get json_loads ''k'' None 10
        (snd (cache_set json_dumps ''k'' (PyInt 7) (Some 10) 0 example_state))) = Inr PyNone"
    and "\<forall>m\<in>set (memories (snd (cache_get json_loads ''k'' None 10
          (snd (cache_set json_dumps ''k'' (PyInt 7) (Some 10) 0 example_state)))) ''a2'').
          \<not> has_cache_key m ''k''"
    by (simp_all add: has_cache_key_iff)
  then show ?thesis
    using ex_faults ex_holder h3 example_served_before_ttl example_entry_written
    by (simp add: filter_empty_conv)
qed

text \<open>
  Claim C2, as it is written, fails for a ttl of 0: \<open>set('k', 7, ttl=0)\<close> at time 0
  stores the ttl 3600 (\<open>ttl or self.CACHE_TTL\<close>), so at time 5, when 0 seconds have
  long elapsed, \<open>get('k')\<close> still returns 7 and the entry is still stored.
\<close>

theorem get_zero_ttl_still_served:
  "(5::int) - 0 \<ge> 0
   \<and> fst (cache_get json_loads ''k'' None 5
        (snd (cache_set json_dumps ''k'' (PyInt 7) (Some 0) 0 example_state))) = Inr (PyInt 7)
   \<and> memories (snd (cache_get json_loads ''k'' None 5
           (snd (cache_set json_dumps ''k'' (PyInt 7) (Some 0) 0 example_state)))) ''a2''
      = [\<lparr>mem_id = Some ''m2'', content = ''plain note'', metadata = None\<rparr>,
         \<lparr>mem_id = Some ''m3'', content = ''8'',
          metadata = Some [(''cache_key'', PyStr ''j''), (''cache_time'', PyInt 100), (''ttl'', PyInt 3600)]\<rparr>,
         \<lparr>mem_id = Some ''mmm'', content = ''7'',
          metadata = Some [(''cache_key'', PyStr ''k''), (''cache_time'', PyInt 0), (''ttl'', PyInt 3600)]\<rparr>]"
  by code_simp

text \<open>
  Claim C1. A string that is itself a JSON document does not survive: \<open>set\<close> stores
  \<open>'123'\<close> as it is, and \<open>get\<close>, which tries \<open>json.loads\<close> first, returns the
  integer 123. (For the values and the \<open>json\<close> functions modelled here, the last
  section shows which come back as they went in: by \<open>set_then_get_roundtrip\<close> every
  value that is not a string, and by \<open>set_then_get_string\<close> a string that
  \<open>json.loads\<close> rejects.)
\<close>

theorem set_get_string_of_digits:
  "fst (cache_get json_loads ''k'' None 0
        (snd (cache_set json_dumps ''k'' (PyStr ''123'') None 0 example_state))) = Inr (PyInt 123)"
proof -
  have h3: "\<forall>m\<in>set (memories example_state ''a2''). has_cache_key m ''k'' \<longrightarrow> id_assigned m"
    using ex_ids by simp
  have enc: "encode_value json_dumps (PyStr ''123'') = Inr ''123''"
    by (simp add: encode_value_def)
  have fresh: "(0::int) - 0 < ttl_or_default None"
    by (simp add: ttl_or_default_def CACHE_TTL_def)
  have dec: "decode_content json_loads ''123'' = PyInt 123"
    by code_simp
  from set_then_get_valid [OF ex_faults ex_holder h3 enc fresh, of json_loads None] dec
  show ?thesis by simp
qed

lemma clear_expired_example:
  "fst (clear_expired 200 example_state) = Inr 1
   \<and> memories (snd (clear_expired 200 example_state)) ''a2'' =
        [\<lparr>mem_id = Some ''m2'', content = ''plain note'', metadata = None\<rparr>,
         \<lparr>mem_id = Some ''m3'', content = ''8'',
          metadata = Some [(''cache_key'', PyStr ''j''), (''cache_time'', PyInt 100), (''ttl'', PyInt 3600)]\<rparr>]"
proof -
  have d: "distinct_ids (memories example_state ''a2'')" using ex_distinct by blast
  have e: "filter (clearable 200) (memories example_state ''a2'') =
      [\<lparr>mem_id = Some ''m1'', content = ''7'',
            metadata = Some [(''cache_key'', PyStr ''k''), (''cache_time'', PyInt 100), (''ttl'', PyInt 50)]\<rparr>]"
    by (simp add: example_state_def clearable_def has_any_cache_key_def age_ge_def md_get_def CACHE_TTL_def)
  have n: "filter (\<lambda>m. \<not> clearable 200 m) (memories example_state ''a2'') =
        [\<lparr>mem_id = Some ''m2'', content = ''plain note'', metadata = None\<rparr>,
         \<lparr>mem_id = Some ''m3'', content = ''8'',
          metadata = Some [(''cache_key'', PyStr ''j''), (''cache_time'', PyInt 100), (''ttl'', PyInt 3600)]\<rparr>]"
    by (simp add: example_state_def clearable_def has_any_cache_key_def age_ge_def md_get_def CACHE_TTL_def)
  from clear_expired_by_its_test [OF ex_faults ex_holder ex_ids d ex_timed, of 200]
  show ?thesis by (simp add: e n)
qed

text \<open>
  Claim C3. The claim fails for the entry of the empty key. \<open>set('', 1, ttl=10)\<close> at
  time 0 writes an entry with \<open>cache_key\<close> \<open>''\<close>, \<open>cache_time\<close> 0 and \<open>ttl\<close>
  10 after the three records of the holder. At time 1000 its age is 990 seconds past
  its ttl, and \<open>clear_expired\<close> deletes the expired entry for \<open>k\<close>, returns 1 and
  leaves the entry of the empty key stored: the test of its loop asks for a true
  \<open>cache_key\<close>, where \<open>get\<close> and \<open>delete\<close> compare the \<open>cache_key\<close> with the key.
\<close>

theorem clear_expired_keeps_empty_key:
  "memories (snd (cache_set json_dumps [] (PyInt 1) (Some 10) 0 example_state)) ''a2'' =
        [\<lparr>mem_id = Some ''m1'', content = ''7'',
          metadata = Some [(''cache_key'', PyStr ''k''), (''cache_time'', PyInt 100), (''ttl'', PyInt 50)]\<rparr>,
         \<lparr>mem_id = Some ''m2'', content = ''plain note'', metadata = None\<rparr>,
         \<lparr>mem_id = Some ''m3'', content = ''8'',
          metadata = Some [(''cache_key'', PyStr ''j''), (''cache_time'', PyInt 100), (''ttl'', PyInt 3600)]\<rparr>,
         \<lparr>mem_id = Some ''mmm'', content = ''1'',
          metadata = Some [(''cache_key'', PyStr []), (''cache_time'', PyInt 0), (''ttl'', PyInt 10)]\<rparr>]
   \<and> (1000::int) - 0 \<ge> 10
   \<and> fst (clear_expired 1000 (snd (cache_set json_dumps [] (PyInt 1) (Some 10) 0 example_state)))
       = Inr 1
   \<and> memories (snd (clear_expired 1000
         (snd (cache_set json_dumps [] (PyInt 1) (Some 10) 0 example_state)))) ''a2'' =
        [\<lparr>mem_id = Some ''m2'', content = ''plain note'', metadata = None\<rparr>,
         \<lparr>mem_id = Some ''m3'', content = ''8'',
          metadata = Some [(''cache_key'', PyStr ''j''), (''cache_time'', PyInt 100), (''ttl'', PyInt 3600)]\<rparr>,
         \<lparr>mem_id = Some ''mmm'', content = ''1'',
          metadata = Some [(''cache_key'', PyStr []), (''cache_time'', PyInt 0), (''ttl'', PyInt 10)]\<rparr>]"
  by code_simp

text \<open>
  The other methods treat that record as the entry of the key \<open>''\<close>: \<open>get('')\<close>
  returns its value at time 5, and at time 1000 it returns \<open>None\<close> and deletes it.
\<close>

lemma get_expires_empty_key:
  "fst (cache_get json_loads [] None 5
         (snd (cache_set json_dumps [] (PyInt 1) (Some 10) 0 example_state))) = Inr (PyInt 1)
   \<and> fst (cache_get json_loads [] None 1000
         (snd (cache_set json_dumps [] (PyInt 1) (Some 10) 0 example_state))) = Inr PyNone
   \<and> memories (snd (cache_get json_loads [] None 1000
         (snd (cache_set json_dumps [] (PyInt 1) (Some 10) 0 example_state)))) ''a2'' =
        [\<lparr>mem_id = Some ''m1'', content = ''7'',
          metadata = Some [(''cache_key'', PyStr ''k''), (''cache_time'', PyInt 100), (''ttl'', PyInt 50)]\<rparr>,
         \<lparr>mem_id = Some ''m2'', content = ''plain note'', metadata = None\<rparr>,
         \<lparr>mem_id = Some ''m3'', content = ''8'',
          metadata = Some [(''cache_key'', PyStr ''j''), (''cache_time'', PyInt 100), (''ttl'', PyInt 3600)]\<rparr>]"
  by code_simp

theorem delete_idempotent_witness:
  "faults example_state = []
   \<and> fst (cache_delete ''k'' example_state) = Inr True
   \<and> fst (get_cache_assistant_id example_state) = Inr ''a2''
   \<and> filter (\<lambda>m. has_cache_key m ''absent'') (memories example_state ''a2'') = []
   \<and> memories (snd (cache_delete ''absent'' example_state)) = memories example_state
   \<and> cache_delete ''k'' (snd (cache_delete ''k'' example_state))
        = (Inr True, snd (cache_delete ''k'' example_state))"
proof -
  have a: "\<forall>m\<in>set (memories example_state ''a2''). \<not> has_cache_key m ''absent''"
    by (simp add: example_state_def has_cache_key_def)
  from delete_idempotent [OF ex_faults, of "''k''"] delete_idempotent [OF ex_faults, of "''absent''"]
  show ?thesis using ex_faults ex_holder a by (simp add: filter_empty_conv)
qed

theorem delete_and_clear_expired_frame_witness:
  "(\<forall>a. distinct_ids (memories example_state a))
   \<and> (\<exists>Q. memories (snd (cache_delete ''k'' example_state)) ''a2'' = filter Q (memories example_state ''a2'')
          \<and> (\<forall>m\<in>set (memories example_state ''a2''). \<not> has_cache_key m ''k'' \<longrightarrow> Q m))
   \<and> (\<exists>Q. memories (snd (clear_expired 200 example_state)) ''a2'' = filter Q (memories example_state ''a2'')
          \<and> (\<forall>m\<in>set (memories example_state ''a2''). \<not> has_any_cache_key m \<longrightarrow> Q m))"
  using delete_and_clear_expired_frame [OF ex_distinct, of "''k''" "''a2''" 200] ex_distinct
  by blast






section \<open>Properties of message normalisation, the routes and the model catalog\<close>








text \<open>
  Claim C6. A request to create an assistant without a \<open>name\<close> is answered with 401,
  not 400: pydantic's \<open>ValidationError\<close> is a \<open>ValueError\<close>, and the route's
  \<open>except ValueError\<close>, written for the missing API key, catches it. The lemmas after
  it show the rest of the mapping: 401 without an API key, 400 for a missing
  \<open>assistant_id\<close> on the memory route.
\<close>

theorem create_assistant_missing_name_401:
  "route_create_assistant request_without_name example_state =
     (\<lparr>status = 401, body = ErrorBody ''validation error for AssistantCreate: name''\<rparr>, example_state)"
  by (simp add: route_create_assistant_def request_without_name_def handle_errors_def bind_io_def
      lift_io_def get_service_def assistant_create_init_def error_response_def)

lemma missing_api_key_401:
  "session_api_key req = None \<Longrightarrow> status (fst (route_create_assistant req w)) = 401"
  "session_api_key req = None \<Longrightarrow> status (fst (route_get_memory mid req w)) = 401"
  by (simp_all add: route_create_assistant_def route_get_memory_def handle_errors_def bind_io_def
      lift_io_def get_service_def error_response_def)

lemma get_memory_missing_assistant_id_400:
  "get_service req = Inr k \<Longrightarrow> map_of (query_args req) ''assistant_id'' = None \<Longrightarrow>
   fst (route_get_memory mid req w) = \<lparr>status = 400, body = ErrorBody ''assistant_id is required''\<rparr>"
  by (simp add: route_get_memory_def handle_errors_def bind_io_def lift_io_def return_io_def)

lemma empty_fetch:
  "list_models empty_catalog_api name_only_model_info now \<lparr>models_cache = [], models_cache_time = t, http_requests = n\<rparr>
     = ([], \<lparr>models_cache = [], models_cache_time = now, http_requests = Suc n\<rparr>)"
  by (simp add: list_models_def fetch_catalog_def empty_catalog_api_def dict_get_def)

text \<open>
  Claim C8, as stated, fails for an empty catalog: fetched at time 1000 and stored, it is
  one second old at 1001, and the call then issues a second request, since
  \<open>_models_cache\<close> is tested for truth.
\<close>

theorem list_models_empty_catalog_refetched:
  "list_models empty_catalog_api name_only_model_info 1000 initial_models_state
     = ([], \<lparr>models_cache = [], models_cache_time = 1000, http_requests = 1\<rparr>)
   \<and> (1001::real) - 1000 < MODELS_CACHE_TTL
   \<and> http_requests (snd (list_models empty_catalog_api name_only_model_info 1001
        (snd (list_models empty_catalog_api name_only_model_info 1000 initial_models_state)))) = 2"
  by (simp add: empty_fetch initial_models_state_def MODELS_CACHE_TTL_def)

text \<open>
  Claim C8, amended. A call made while the cached catalog is not empty and less than
  3600 seconds old returns the cached list and changes nothing, so it issues no
  request. Otherwise, when the refresh succeeds, the call returns the refreshed list
  and the cache holds exactly that list and the time of the call, whatever it held
  before.
\<close>

theorem list_models_cached:
  "(models_cache s \<noteq> [] \<and> now - models_cache_time s < MODELS_CACHE_TTL
      \<longrightarrow> list_models api conv now s = (models_cache s, s))
   \<and> (\<forall>result s'. \<not> (models_cache s \<noteq> [] \<and> now - models_cache_time s < MODELS_CACHE_TTL)
         \<and> fetch_catalog api conv s = (Inr result, s')
      \<longrightarrow> fst (list_models api conv now s) = result
          \<and> models_cache (snd (list_models api conv now s)) = result
          \<and> models_cache_time (snd (list_models api conv now s)) = now
          \<and> http_requests (snd (list_models api conv now s)) = http_requests s')"
  by (auto simp: list_models_def)

theorem list_models_cached_witness:
  "models_cache warm_models_state = [gpt_info]
   \<and> (4599::real) - models_cache_time warm_models_state < MODELS_CACHE_TTL
   \<and> list_models one_model_api name_only_model_info 4599 warm_models_state = ([gpt_info], warm_models_state)
   \<and> fetch_catalog one_model_api name_only_model_info initial_models_state
        = (Inr [gpt_info], \<lparr>models_cache = [], models_cache_time = 0, http_requests = 1\<rparr>)
   \<and> list_models one_model_api name_only_model_info 1000 initial_models_state = ([gpt_info], warm_models_state)"
proof -
  have a: "models_cache warm_models_state \<noteq> [] \<and> (4599::real) - models_cache_time warm_models_state < MODELS_CACHE_TTL"
    by (simp add: warm_models_state_def MODELS_CACHE_TTL_def)
  have b: "\<not> (models_cache initial_models_state \<noteq> [] \<and> (1000::real) - models_cache_time initial_models_state < MODELS_CACHE_TTL)"
    by (simp add: initial_models_state_def)
  have c: "fetch_catalog one_model_api name_only_model_info initial_models_state
        = (Inr [gpt_info], \<lparr>models_cache = [], models_cache_time = 0, http_requests = 1\<rparr>)"
    by (simp add: fetch_catalog_def one_model_api_def dict_get_def name_only_model_info_def
        initial_models_state_def gpt_info_def)
  from list_models_cached [of warm_models_state 4599 one_model_api name_only_model_info] a
  have 1: "list_models one_model_api name_only_model_info 4599 warm_models_state = ([gpt_info], warm_models_state)"
    by (simp add: warm_models_state_def)
  from list_models_cached [of initial_models_state 1000 one_model_api name_only_model_info] b c
  have "fst (list_models one_model_api name_only_model_info 1000 initial_models_state) = [gpt_info]
      \<and> models_cache (snd (list_models one_model_api name_only_model_info 1000 initial_models_state)) = [gpt_info]
      \<and> models_cache_time (snd (list_models one_model_api name_only_model_info 1000 initial_models_state)) = 1000
      \<and> http_requests (snd (list_models one_model_api name_only_model_info 1000 initial_models_state)) = 1"
    by simp
  then have 2: "list_models one_model_api name_only_model_info 1000 initial_models_state = ([gpt_info], warm_models_state)"
    by (cases "list_models one_model_api name_only_model_info 1000 initial_models_state")
       (auto simp: warm_models_state_def)
  show ?thesis using a c 1 2 by (simp add: warm_models_state_def)
qed

lemma len_ge_int: "len_ge k (PyInt (int n)) = Inr (n \<le> k)"
  by (simp add: len_ge_def)

lemma search_memories_spec:
  "\<exists>R S. search_memories query (PyInt (int n)) a ms acc = (None, R)
        \<and> acc @ hits_of query a ms = R @ S \<and> (S = [] \<or> n \<le> length R)"
proof (induction ms arbitrary: acc)
  case Nil
  then show ?case by (simp add: hits_of_def)
next
  case (Cons m ms)
  show ?case
  proof (cases "contains query (py_lower (content m))")
    case False
    with Cons [of acc] show ?thesis by (simp add: hits_of_def)
  next
    case True
    let ?h = "\<lparr>hit_memory = m, hit_assistant_id = a_id a, hit_assistant_name = a_name a\<rparr>"
    have h: "hits_of query a (m # ms) = ?h # hits_of query a ms"
      using True by (simp add: hits_of_def)
    show ?thesis
    proof (cases "n \<le> Suc (length acc)")
      case True
      then have "search_memories query (PyInt (int n)) a (m # ms) acc = (None, acc @ [?h])"
        using \<open>contains query (py_lower (content m))\<close> by (simp add: len_ge_int Let_def)
      moreover have "acc @ hits_of query a (m # ms) = (acc @ [?h]) @ hits_of query a ms"
        by (simp add: h)
      ultimately show ?thesis using True by auto
    next
      case False
      then have "search_memories query (PyInt (int n)) a (m # ms) acc
          = search_memories query (PyInt (int n)) a ms (acc @ [?h])"
        using \<open>contains query (py_lower (content m))\<close> by (simp add: len_ge_int Let_def)
      with Cons [of "acc @ [?h]"] show ?thesis by (simp add: h)
    qed
  qed
qed

lemma all_hits_Cons:
  "all_hits query (a # as) mems = hits_of query a (mems (a_id a)) @ all_hits query as mems"
  by (simp add: all_hits_def hits_of_def)

lemma search_assistants_spec:
  assumes "faults w = []"
  shows "\<exists>R S. search_assistants query (PyInt (int n)) as acc w = (R, w)
        \<and> acc @ all_hits query as (memories w) = R @ S \<and> (S = [] \<or> n \<le> length R)"
  using assms
proof (induction as arbitrary: acc)
  case Nil
  then show ?case by (simp add: all_hits_def)
next
  case (Cons a as)
  from search_memories_spec [of query n a "memories w (a_id a)" acc]
  obtain R S where r: "search_memories query (PyInt (int n)) a (memories w (a_id a)) acc = (None, R)"
    "acc @ hits_of query a (memories w (a_id a)) = R @ S" "S = [] \<or> n \<le> length R"
    by blast
  have l: "list_memories (a_id a) w = (Inr (memories w (a_id a)), w)"
    using Cons.prems by (simp add: list_memories_nofault)
  show ?case
  proof (cases "n \<le> length R")
    case True
    then have "search_assistants query (PyInt (int n)) (a # as) acc w = (R, w)"
      by (simp add: l r(1) len_ge_int)
    moreover have "acc @ all_hits query (a # as) (memories w) = R @ (S @ all_hits query as (memories w))"
      using r(2) by (simp add: all_hits_Cons)
    ultimately show ?thesis using True by blast
  next
    case False
    then have s: "S = []" using r(3) by simp
    have "search_assistants query (PyInt (int n)) (a # as) acc w
        = search_assistants query (PyInt (int n)) as R w"
      using False by (simp add: l r(1) len_ge_int)
    moreover from Cons.IH [OF Cons.prems, of R]
    obtain R' S' where "search_assistants query (PyInt (int n)) as R w = (R', w)"
      "R @ all_hits query as (memories w) = R' @ S'" "S' = [] \<or> n \<le> length R'" by blast
    moreover have "acc @ all_hits query (a # as) (memories w) = R @ all_hits query as (memories w)"
      using r(2) s by (simp add: all_hits_Cons)
    ultimately show ?thesis by auto
  qed
qed

lemma take_prefix_eq: "xs = R @ S \<Longrightarrow> S = [] \<or> n \<le> length R \<Longrightarrow> take n R = take n xs"
  by auto

lemma take_is_prefix: "take (length q) s = q \<longleftrightarrow> (\<exists>suf. s = q @ suf)"
proof
  assume "take (length q) s = q"
  then have "s = q @ drop (length q) s" by (metis append_take_drop_id)
  then show "\<exists>suf. s = q @ suf" ..
next
  assume "\<exists>suf. s = q @ suf"
  then show "take (length q) s = q" by auto
qed

lemma contains_iff: "contains q s \<longleftrightarrow> (\<exists>pre suf. s = pre @ q @ suf)"
proof (induction s)
  case Nil
  show ?case by simp
next
  case (Cons c cs)
  have "(\<exists>pre suf. c # cs = pre @ q @ suf)
      \<longleftrightarrow> (\<exists>suf. c # cs = q @ suf) \<or> (\<exists>pre suf. cs = pre @ q @ suf)"
  proof
    assume "\<exists>pre suf. c # cs = pre @ q @ suf"
    then obtain pre suf where e: "c # cs = pre @ q @ suf" by blast
    show "(\<exists>suf. c # cs = q @ suf) \<or> (\<exists>pre suf. cs = pre @ q @ suf)"
    proof (cases pre)
      case Nil
      with e show ?thesis by auto
    next
      case (Cons x xs)
      with e have "cs = xs @ q @ suf" by simp
      then show ?thesis by blast
    qed
  next
    assume "(\<exists>suf. c # cs = q @ suf) \<or> (\<exists>pre suf. cs = pre @ q @ suf)"
    then show "\<exists>pre suf. c # cs = pre @ q @ suf"
    proof
      assume "\<exists>suf. c # cs = q @ suf"
      then obtain suf where "c # cs = [] @ q @ suf" by auto
      then show ?thesis by blast
    next
      assume "\<exists>pre suf. cs = pre @ q @ suf"
      then obtain pre suf where "c # cs = (c # pre) @ q @ suf" by auto
      then show ?thesis by blast
    qed
  qed
  then show ?case using Cons.IH take_is_prefix [of q "c # cs"] by simp
qed

lemma all_hits_sound:
  "h \<in> set (all_hits query as mems) \<Longrightarrow>
   (\<exists>a\<in>set as. hit_assistant_id h = a_id a \<and> hit_assistant_name h = a_name a
        \<and> hit_memory h \<in> set (mems (a_id a)))
   \<and> contains query (py_lower (content (hit_memory h)))"
  by (auto simp: all_hits_def)

lemma all_hits_complete:
  assumes "a \<in> set as" "m \<in> set (mems (a_id a))" "contains query (py_lower (content m))"
  shows "\<lparr>hit_memory = m, hit_assistant_id = a_id a, hit_assistant_name = a_name a\<rparr>
           \<in> set (all_hits query as mems)"
  using assms by (auto simp: all_hits_def)

text \<open>
  Claim C9. For a request from a session with a key, whose body has no
  \<open>assistant_id\<close>, a string (or no) \<open>query\<close> and a natural number (or no)
  \<open>limit\<close>, when no remote call fails and the platform lists all its assistants:
  the answer is 200 with at most \<open>limit\<close> results; every result is a memory of an
  assistant not named \<open>bb_browser_cache\<close>, with that assistant's id and name, and the
  query in lower case occurs in its content in lower case, that is, the content is
  some text, the query, and some text; when fewer than \<open>limit\<close> results come back,
  every such memory of every such assistant is among them. The results are the first
  \<open>limit\<close> such memories in the order of the assistants and of their memories.
\<close>

theorem aggregate_search:
  assumes key: "get_service req = Inr k"
    and noaid: "\<not> truthy (dict_get (json req) ''assistant_id'' PyNone)"
    and q: "dict_get (json req) ''query'' (PyStr []) = PyStr q"
    and lim: "dict_get (json req) ''limit'' (PyInt 50) = PyInt (int n)"
    and nf: "faults w = []"
    and len: "length (assistants w) \<le> 10000"
  shows "\<exists>found.
      route_search_memory single req w = (\<lparr>status = 200, body = HitsBody found\<rparr>, w)
    \<and> found = take n (all_hits (py_lower q)
                 (filter (\<lambda>a. a_name a \<noteq> ''bb_browser_cache'') (assistants w)) (memories w))
    \<and> length found \<le> n
    \<and> (\<forall>h\<in>set found.
          hit_assistant_name h \<noteq> ''bb_browser_cache''
        \<and> (\<exists>a\<in>set (assistants w). hit_assistant_id h = a_id a \<and> hit_assistant_name h = a_name a
               \<and> hit_memory h \<in> set (memories w (a_id a)))
        \<and> (\<exists>pre suf. py_lower (content (hit_memory h)) = pre @ py_lower q @ suf))
    \<and> (length found < n \<longrightarrow>
         (\<forall>a\<in>set (assistants w). \<forall>m\<in>set (memories w (a_id a)).
            a_name a \<noteq> ''bb_browser_cache''
            \<longrightarrow> (\<exists>pre suf. py_lower (content m) = pre @ py_lower q @ suf)
            \<longrightarrow> \<lparr>hit_memory = m, hit_assistant_id = a_id a, hit_assistant_name = a_name a\<rparr>
                  \<in> set found))"
proof -
  let ?as = "filter (\<lambda>a. a_name a \<noteq> ''bb_browser_cache'') (assistants w)"
  let ?all = "all_hits (py_lower q) ?as (memories w)"
  from search_assistants_spec [OF nf, of "py_lower q" n ?as "[]"]
  obtain R S where r: "search_assistants (py_lower q) (PyInt (int n)) ?as [] w = (R, w)"
    "?all = R @ S" "S = [] \<or> n \<le> length R" by auto
  have t: "take n R = take n ?all" using r(2,3) by (rule take_prefix_eq)
  have la: "list_assistants 0 10000 w = (Inr (assistants w), w)"
    using nf len by (simp add: list_assistants_def remote_nofault)
  have sl: "slice_to (PyInt (int n)) R = Inr (take n R)"
    by (simp add: slice_to_def)
  have route: "route_search_memory single req w = (\<lparr>status = 200, body = HitsBody (take n ?all)\<rparr>, w)"
    using key noaid q lim la r(1) sl t
    by (simp add: route_search_memory_def handle_errors_def bind_io_def lift_io_def
        query_lower_def Let_def)
  have sound: "hit_assistant_name h \<noteq> ''bb_browser_cache''
        \<and> (\<exists>a\<in>set (assistants w). hit_assistant_id h = a_id a \<and> hit_assistant_name h = a_name a
               \<and> hit_memory h \<in> set (memories w (a_id a)))
        \<and> (\<exists>pre suf. py_lower (content (hit_memory h)) = pre @ py_lower q @ suf)"
    if "h \<in> set (take n ?all)" for h
  proof -
    from that have "h \<in> set ?all" by (rule in_set_takeD)
    from all_hits_sound [OF this] show ?thesis by (auto simp: contains_iff)
  qed
  have complete: "\<lparr>hit_memory = m, hit_assistant_id = a_id a, hit_assistant_name = a_name a\<rparr>
                  \<in> set (take n ?all)"
    if short: "length (take n ?all) < n" and a: "a \<in> set (assistants w)"
      and m: "m \<in> set (memories w (a_id a))" and nm: "a_name a \<noteq> ''bb_browser_cache''"
      and sub: "\<exists>pre suf. py_lower (content m) = pre @ py_lower q @ suf" for a m
  proof -
    from short have "take n ?all = ?all" by simp
    moreover have "a \<in> set ?as" using a nm by simp
    moreover have "contains (py_lower q) (py_lower (content m))"
      using sub by (simp add: contains_iff)
    ultimately show ?thesis using m all_hits_complete by metis
  qed
  show ?thesis
  proof (intro exI conjI)
    show "route_search_memory single req w = (\<lparr>status = 200, body = HitsBody (take n ?all)\<rparr>, w)"
      by (rule route)
    show "take n ?all = take n ?all" ..
    show "length (take n ?all) \<le> n" by simp
    show "\<forall>h\<in>set (take n ?all).
          hit_assistant_name h \<noteq> ''bb_browser_cache''
        \<and> (\<exists>a\<in>set (assistants w). hit_assistant_id h = a_id a \<and> hit_assistant_name h = a_name a
               \<and> hit_memory h \<in> set (memories w (a_id a)))
        \<and> (\<exists>pre suf. py_lower (content (hit_memory h)) = pre @ py_lower q @ suf)"
      using sound by blast
    show "length (take n ?all) < n \<longrightarrow>
         (\<forall>a\<in>set (assistants w). \<forall>m\<in>set (memories w (a_id a)).
            a_name a \<noteq> ''bb_browser_cache''
            \<longrightarrow> (\<exists>pre suf. py_lower (content m) = pre @ py_lower q @ suf)
            \<longrightarrow> \<lparr>hit_memory = m, hit_assistant_id = a_id a, hit_assistant_name = a_name a\<rparr>
                  \<in> set (take n ?all))"
      using complete by blast
  qed
qed

lemma search_hits3:
  "take 3 (all_hits (py_lower ''MILK'')
      (filter (\<lambda>a. a_name a \<noteq> ''bb_browser_cache'') (assistants search_state))
      (memories search_state))
   = [\<lparr>hit_memory = \<lparr>mem_id = Some ''n1'', content = ''Buy Milk'', metadata = None\<rparr>,
        hit_assistant_id = ''a1'', hit_assistant_name = ''notes''\<rparr>,
      \<lparr>hit_memory = \<lparr>mem_id = Some ''n3'', content = ''milk and honey'', metadata = None\<rparr>,
        hit_assistant_id = ''a1'', hit_assistant_name = ''notes''\<rparr>,
      \<lparr>hit_memory = \<lparr>mem_id = Some ''p1'', content = ''Almond MILK'', metadata = None\<rparr>,
        hit_assistant_id = ''a3'', hit_assistant_name = ''work''\<rparr>]"
  by code_simp

lemma search_hits50:
  "take 50 (all_hits (py_lower ''MILK'')
      (filter (\<lambda>a. a_name a \<noteq> ''bb_browser_cache'') (assistants search_state))
      (memories search_state))
   = [\<lparr>hit_memory = \<lparr>mem_id = Some ''n1'', content = ''Buy Milk'', metadata = None\<rparr>,
        hit_assistant_id = ''a1'', hit_assistant_name = ''notes''\<rparr>,
      \<lparr>hit_memory = \<lparr>mem_id = Some ''n3'', content = ''milk and honey'', metadata = None\<rparr>,
        hit_assistant_id = ''a1'', hit_assistant_name = ''notes''\<rparr>,
      \<lparr>hit_memory = \<lparr>mem_id = Some ''p1'', content = ''Almond MILK'', metadata = None\<rparr>,
        hit_assistant_id = ''a3'', hit_assistant_name = ''work''\<rparr>,
      \<lparr>hit_memory = \<lparr>mem_id = Some ''p2'', content = ''Soy milk'', metadata = None\<rparr>,
        hit_assistant_id = ''a3'', hit_assistant_name = ''work''\<rparr>]"
  by code_simp

theorem aggregate_search_witness:
  "get_service search_request = Inr ''key''
   \<and> \<not> truthy (dict_get (json search_request) ''assistant_id'' PyNone)
   \<and> dict_get (json search_request) ''query'' (PyStr []) = PyStr ''MILK''
   \<and> dict_get (json search_request) ''limit'' (PyInt 50) = PyInt (int 3)
   \<and> get_service search_request_no_limit = Inr ''key''
   \<and> \<not> truthy (dict_get (json search_request_no_limit) ''assistant_id'' PyNone)
   \<and> dict_get (json search_request_no_limit) ''query'' (PyStr []) = PyStr ''MILK''
   \<and> dict_get (json search_request_no_limit) ''limit'' (PyInt 50) = PyInt (int 50)
   \<and> faults search_state = []
   \<and> length (assistants search_state) \<le> 10000
   \<and> route_search_memory no_single_search search_request search_state =
        (\<lparr>status = 200,
          body = HitsBody
            [\<lparr>hit_memory = \<lparr>mem_id = Some ''n1'', content = ''Buy Milk'', metadata = None\<rparr>,
              hit_assistant_id = ''a1'', hit_assistant_name = ''notes''\<rparr>,
             \<lparr>hit_memory = \<lparr>mem_id = Some ''n3'', content = ''milk and honey'', metadata = None\<rparr>,
              hit_assistant_id = ''a1'', hit_assistant_name = ''notes''\<rparr>,
             \<lparr>hit_memory = \<lparr>mem_id = Some ''p1'', content = ''Almond MILK'', metadata = None\<rparr>,
              hit_assistant_id = ''a3'', hit_assistant_name = ''work''\<rparr>]\<rparr>,
         search_state)
   \<and> route_search_memory no_single_search search_request_no_limit search_state =
        (\<lparr>status = 200,
          body = HitsBody
            [\<lparr>hit_memory = \<lparr>mem_id = Some ''n1'', content = ''Buy Milk'', metadata = None\<rparr>,
              hit_assistant_id = ''a1'', hit_assistant_name = ''notes''\<rparr>,
             \<lparr>hit_memory = \<lparr>mem_id = Some ''n3'', content = ''milk and honey'', metadata = None\<rparr>,
              hit_assistant_id = ''a1'', hit_assistant_name = ''notes''\<rparr>,
             \<lparr>hit_memory = \<lparr>mem_id = Some ''p1'', content = ''Almond MILK'', metadata = None\<rparr>,
              hit_assistant_id = ''a3'', hit_assistant_name = ''work''\<rparr>,
             \<lparr>hit_memory = \<lparr>mem_id = Some ''p2'', content = ''Soy milk'', metadata = None\<rparr>,
              hit_assistant_id = ''a3'', hit_assistant_name = ''work''\<rparr>]\<rparr>,
         search_state)"
proof -
  have key: "get_service search_request = Inr ''key''"
    by (simp add: get_service_def search_request_def)
  have noaid: "\<not> truthy (dict_get (json search_request) ''assistant_id'' PyNone)"
    by (simp add: dict_get_def search_request_def)
  have q: "dict_get (json search_request) ''query'' (PyStr []) = PyStr ''MILK''"
    by (simp add: dict_get_def search_request_def)
  have lim: "dict_get (json search_request) ''limit'' (PyInt 50) = PyInt (int 3)"
    by (simp add: dict_get_def search_request_def)
  have key': "get_service search_request_no_limit = Inr ''key''"
    by (simp add: get_service_def search_request_no_limit_def)
  have noaid': "\<not> truthy (dict_get (json search_request_no_limit) ''assistant_id'' PyNone)"
    by (simp add: dict_get_def search_request_no_limit_def)
  have q': "dict_get (json search_request_no_limit) ''query'' (PyStr []) = PyStr ''MILK''"
    by (simp add: dict_get_def search_request_no_limit_def)
  have lim': "dict_get (json search_request_no_limit) ''limit'' (PyInt 50) = PyInt (int 50)"
    by (simp add: dict_get_def search_request_no_limit_def)
  have nf: "faults search_state = []"
    by (simp add: search_state_def)
  have len: "length (assistants search_state) \<le> 10000"
    by (simp add: search_state_def)
  from aggregate_search [OF key noaid q lim nf len, of no_single_search]
  have r3: "route_search_memory no_single_search search_request search_state =
      (\<lparr>status = 200, body = HitsBody (take 3 (all_hits (py_lower ''MILK'')
          (filter (\<lambda>a. a_name a \<noteq> ''bb_browser_cache'') (assistants search_state))
          (memories search_state)))\<rparr>, search_state)"
    by auto
  from aggregate_search [OF key' noaid' q' lim' nf len, of no_single_search]
  have r50: "route_search_memory no_single_search search_request_no_limit search_state =
      (\<lparr>status = 200, body = HitsBody (take 50 (all_hits (py_lower ''MILK'')
          (filter (\<lambda>a. a_name a \<noteq> ''bb_browser_cache'') (assistants search_state))
          (memories search_state)))\<rparr>, search_state)"
    by auto
  show ?thesis
    using key noaid q lim key' noaid' q' lim' nf len r3 r50
    by (simp add: search_hits3 search_hits50)
qed

section \<open>The bound on the recursion of \<open>json_loads\<close>\<close>

lemma length_skip_ws: "length (skip_ws s) \<le> length s"
  by (simp add: skip_ws_def length_dropWhile_le)

lemma cons_result_Some:
  "cons_result c x = Some (t, r) \<Longrightarrow> \<exists>t'. x = Some (t', r) \<and> t = c # t'"
  by (auto simp: cons_result_def split: option.splits)

lemma scan_string_shorter: "scan_string s = Some (t, r) \<Longrightarrow> length r < length s"
proof (induction s arbitrary: t rule: scan_string.induct)
  case 1
  then show ?case by simp
next
  case (2 c r0)
  show ?case
  proof (cases "c = quote_char")
    case True
    with 2 show ?thesis by simp
  next
    case nq: False
    show ?thesis
    proof (cases "c = backslash")
      case True
      then obtain e r' where r0: "r0 = e # r'"
        using "2.prems" nq by (cases r0) auto
      show ?thesis
      proof (cases "e = CHR ''u''")
        case True
        then obtain n where h: "hex4 r' = Some n" "n < 256"
          using "2.prems" nq \<open>c = backslash\<close> r0 by (auto split: option.splits if_splits)
        then have "cons_result (char_of n) (scan_string (drop 4 r')) = Some (t, r)"
          using "2.prems" nq \<open>c = backslash\<close> r0 True by simp
        then obtain t' where "scan_string (drop 4 r') = Some (t', r)"
          by (auto dest: cons_result_Some)
        from "2.IH"(1) [OF nq \<open>c = backslash\<close> r0 True h(1) h(2) this]
        show ?thesis using r0 by simp
      next
        case False
        then obtain ch where u: "unescape e = Some ch"
          using "2.prems" nq \<open>c = backslash\<close> r0 by (auto split: option.splits)
        then have "cons_result ch (scan_string r') = Some (t, r)"
          using "2.prems" nq \<open>c = backslash\<close> r0 False by simp
        then obtain t' where "scan_string r' = Some (t', r)"
          by (auto dest: cons_result_Some)
        from "2.IH"(2) [OF nq \<open>c = backslash\<close> r0 False u this]
        show ?thesis using r0 by simp
      qed
    next
      case nb: False
      then have ok: "\<not> (of_char c :: nat) < 32" and "cons_result c (scan_string r0) = Some (t, r)"
        using "2.prems" nq by (auto split: if_splits)
      then obtain t' where "scan_string r0 = Some (t', r)"
        by (auto dest: cons_result_Some)
      from "2.IH"(3) [OF nq nb ok this] show ?thesis by simp
    qed
  qed
qed

lemma scan_int_shorter: "scan_int s = Some (i, r) \<Longrightarrow> length r < length s"
  by (cases s)
     (auto simp: scan_int_def Let_def split: list.splits if_splits
           intro: le_less_trans [OF length_dropWhile_le] le_imp_less_Suc [OF length_dropWhile_le])

lemma scan_number_shorter: "scan_number s = Some (v, r) \<Longrightarrow> length r < length s"
  by (auto simp: scan_number_def split: option.splits if_splits dest: scan_int_shorter)

lemma parse_value_cases:
  assumes "parse_value (Suc m) s = Some (v, r)"
  shows "(length r < length s \<and> (\<forall>n. parse_value (Suc n) s = Some (v, r)))
       \<or> (\<exists>u. length u < length s
              \<and> parse_members m u [] = Some (v, r)
              \<and> (\<forall>n. parse_value (Suc n) s = parse_members n u []))
       \<or> (\<exists>u. length u < length s
              \<and> parse_elements m u [] = Some (v, r)
              \<and> (\<forall>n. parse_value (Suc n) s = parse_elements n u []))"
proof (cases s)
  case Nil
  with assms show ?thesis by simp
next
  case (Cons c t)
  show ?thesis
  proof (cases "c = quote_char")
    case True
    then obtain x where "scan_string t = Some (x, r)" "v = PyStr x"
      using assms Cons by (auto split: option.splits)
    then show ?thesis using Cons True scan_string_shorter [of t x r] by auto
  next
    case nq: False
    show ?thesis
    proof (cases "c = CHR ''{''")
      case True
      then obtain c' r' where sk: "skip_ws t = c' # r'"
        using assms Cons nq by (cases "skip_ws t") auto
      have len: "length (c' # r') \<le> length t" using length_skip_ws [of t] sk by simp
      show ?thesis
      proof (cases "c' = CHR ''}''")
        case True
        then show ?thesis using assms Cons nq \<open>c = CHR ''{''\<close> sk len by auto
      next
        case False
        then have "parse_members m (c' # r') [] = Some (v, r)"
          "\<forall>n. parse_value (Suc n) s = parse_members n (c' # r') []"
          using assms Cons nq \<open>c = CHR ''{''\<close> sk by (auto simp del: parse_members.simps)
        then have "length (c' # r') < length s
              \<and> parse_members m (c' # r') [] = Some (v, r)
              \<and> (\<forall>n. parse_value (Suc n) s = parse_members n (c' # r') [])"
          using Cons len by simp
        then show ?thesis by blast
      qed
    next
      case nb: False
      show ?thesis
      proof (cases "c = CHR ''[''")
        case True
        then obtain c' r' where sk: "skip_ws t = c' # r'"
          using assms Cons nq nb by (cases "skip_ws t") auto
        have len: "length (c' # r') \<le> length t" using length_skip_ws [of t] sk by simp
        show ?thesis
        proof (cases "c' = CHR '']''")
          case True
          then show ?thesis using assms Cons nq nb \<open>c = CHR ''[''\<close> sk len by auto
        next
          case False
          then have "parse_elements m (c' # r') [] = Some (v, r)"
            "\<forall>n. parse_value (Suc n) s = parse_elements n (c' # r') []"
            using assms Cons nq nb \<open>c = CHR ''[''\<close> sk by (auto simp del: parse_elements.simps)
          then have "length (c' # r') < length s
              \<and> parse_elements m (c' # r') [] = Some (v, r)
              \<and> (\<forall>n. parse_value (Suc n) s = parse_elements n (c' # r') [])"
            using Cons len by simp
          then show ?thesis by blast
        qed
      next
        case False
        have leaf: "parse_value (Suc n) s = parse_value (Suc m) s" for n
          using Cons nq nb False by simp
        have "length r < length s"
          using assms Cons nq nb False
          by (auto split: if_splits dest: scan_number_shorter)
        then show ?thesis using leaf assms by simp
      qed
    qed
  qed
qed

text \<open>
  A parse that succeeds under some bound consumes at least one character, and succeeds
  alike under every bound from twice the number of characters it consumes on.
\<close>

lemma fuel_enough:
  "(\<forall>s v r. parse_value m s = Some (v, r) \<longrightarrow>
       length r < length s \<and> settled (\<lambda>n. parse_value n s) (length s - length r) v r)
   \<and> (\<forall>s acc v r. parse_elements m s acc = Some (v, r) \<longrightarrow>
       length r < length s \<and> settled (\<lambda>n. parse_elements n s acc) (length s - length r) v r)
   \<and> (\<forall>s acc v r. parse_members m s acc = Some (v, r) \<longrightarrow>
       length r < length s \<and> settled (\<lambda>n. parse_members n s acc) (length s - length r) v r)"
proof (induction m)
  case 0
  then show ?case by simp
next
  case (Suc m)
  note ih = Suc
  have ihv: "length r < length s \<and> settled (\<lambda>n. parse_value n s) (length s - length r) v r"
    if "parse_value m s = Some (v, r)" for s v r
    using ih that by blast
  have ihe: "length r < length s \<and> settled (\<lambda>n. parse_elements n s acc) (length s - length r) v r"
    if "parse_elements m s acc = Some (v, r)" for s acc v r
    using ih that by blast
  have ihm: "length r < length s \<and> settled (\<lambda>n. parse_members n s acc) (length s - length r) v r"
    if "parse_members m s acc = Some (v, r)" for s acc v r
    using ih that by blast
  have v: "length r < length s \<and> settled (\<lambda>n. parse_value n s) (length s - length r) v r"
    if a: "parse_value (Suc m) s = Some (v, r)" for s v r
  proof -
    from parse_value_cases [OF a] consider
        (leaf) "length r < length s" "\<forall>n. parse_value (Suc n) s = Some (v, r)"
      | (obj) u where "length u < length s"
          "parse_members m u [] = Some (v, r)" "\<forall>n. parse_value (Suc n) s = parse_members n u []"
      | (arr) u where "length u < length s"
          "parse_elements m u [] = Some (v, r)" "\<forall>n. parse_value (Suc n) s = parse_elements n u []"
      by blast
    then show ?thesis
    proof cases
      case leaf
      have "parse_value n s = Some (v, r)" if "2 * (length s - length r) \<le> n" for n
      proof -
        from that leaf(1) obtain k where "n = Suc k" by (cases n) auto
        then show ?thesis using leaf(2) by simp
      qed
      then show ?thesis using leaf(1) by (simp add: settled_def)
    next
      case (obj u)
      from ihm [OF obj(2)] have l: "length r < length u"
        and st: "settled (\<lambda>n. parse_members n u []) (length u - length r) v r" by auto
      have "parse_value n s = Some (v, r)" if "2 * (length s - length r) \<le> n" for n
      proof -
        from that l obj(1) obtain k where k: "n = Suc k" "2 * (length u - length r) \<le> k"
          by (cases n) auto
        then show ?thesis using obj(3) st by (simp add: settled_def)
      qed
      then show ?thesis using l obj(1) by (simp add: settled_def)
    next
      case (arr u)
      from ihe [OF arr(2)] have l: "length r < length u"
        and st: "settled (\<lambda>n. parse_elements n u []) (length u - length r) v r" by auto
      have "parse_value n s = Some (v, r)" if "2 * (length s - length r) \<le> n" for n
      proof -
        from that l arr(1) obtain k where k: "n = Suc k" "2 * (length u - length r) \<le> k"
          by (cases n) auto
        then show ?thesis using arr(3) st by (simp add: settled_def)
      qed
      then show ?thesis using l arr(1) by (simp add: settled_def)
    qed
  qed
  have e: "length r < length s \<and> settled (\<lambda>n. parse_elements n s acc) (length s - length r) v r"
    if a: "parse_elements (Suc m) s acc = Some (v, r)" for s acc v r
  proof -
    from a obtain x r1 where pv: "parse_value m s = Some (x, r1)"
      by (auto split: option.splits)
    from ihv [OF pv] have l1: "length r1 < length s"
      and st1: "settled (\<lambda>n. parse_value n s) (length s - length r1) x r1" by auto
    from a pv obtain c r2 where sk: "skip_ws r1 = c # r2"
      by (cases "skip_ws r1") auto
    have l2: "length r2 < length r1" using length_skip_ws [of r1] sk by simp
    show ?thesis
    proof (cases "c = CHR '']''")
      case True
      then have r: "r = r2" "v = PyList (acc @ [x])" using a pv sk by auto
      have "parse_elements n s acc = Some (v, r)" if "2 * (length s - length r) \<le> n" for n
      proof -
        from that l1 l2 r obtain k where k: "n = Suc k" "2 * (length s - length r1) \<le> k"
          by (cases n) auto
        then have "parse_value k s = Some (x, r1)" using st1 by (simp add: settled_def)
        then show ?thesis using k sk True r by simp
      qed
      then show ?thesis using l1 l2 r by (simp add: settled_def)
    next
      case False
      then have comma: "c = CHR '',''" and
        rest: "parse_elements m (skip_ws r2) (acc @ [x]) = Some (v, r)"
        using a pv sk by (auto split: if_splits)
      from ihe [OF rest] have l3: "length r < length (skip_ws r2)"
        and st3: "settled (\<lambda>n. parse_elements n (skip_ws r2) (acc @ [x]))
            (length (skip_ws r2) - length r) v r" by auto
      have l4: "length (skip_ws r2) \<le> length r2" by (rule length_skip_ws)
      have "parse_elements n s acc = Some (v, r)" if "2 * (length s - length r) \<le> n" for n
      proof -
        from that l1 l2 l3 l4 obtain k where k: "n = Suc k" "2 * (length s - length r1) \<le> k"
          "2 * (length (skip_ws r2) - length r) \<le> k"
          by (cases n) auto
        then have "parse_value k s = Some (x, r1)"
          "parse_elements k (skip_ws r2) (acc @ [x]) = Some (v, r)"
          using st1 st3 by (simp_all add: settled_def)
        then show ?thesis using k sk comma by simp
      qed
      then show ?thesis using l1 l2 l3 l4 by (simp add: settled_def)
    qed
  qed
  have mm: "length r < length s \<and> settled (\<lambda>n. parse_members n s acc) (length s - length r) v r"
    if a: "parse_members (Suc m) s acc = Some (v, r)" for s acc v r
  proof -
    from a obtain r0 where s: "s = quote_char # r0"
      by (cases s) (auto split: if_splits)
    from a s obtain k r1 where key: "scan_string r0 = Some (k, r1)"
      by (auto split: option.splits)
    have l0: "length r1 < length r0" using scan_string_shorter [OF key] .
    from a s key obtain r2 where sk1: "skip_ws r1 = CHR '':'' # r2"
      by (cases "skip_ws r1") (auto split: if_splits)
    have l1: "length r2 < length r1" using length_skip_ws [of r1] sk1 by simp
    from a s key sk1 obtain x r3 where pv: "parse_value m (skip_ws r2) = Some (x, r3)"
      by (auto split: option.splits)
    from ihv [OF pv] have l2: "length r3 < length (skip_ws r2)"
      and st2: "settled (\<lambda>n. parse_value n (skip_ws r2)) (length (skip_ws r2) - length r3) x r3"
      by auto
    have l2': "length (skip_ws r2) \<le> length r2" by (rule length_skip_ws)
    from a s key sk1 pv obtain c' r4 where sk3: "skip_ws r3 = c' # r4"
      by (cases "skip_ws r3") auto
    have l3: "length r4 < length r3" using length_skip_ws [of r3] sk3 by simp
    have step: "parse_members (Suc n) s acc =
        (if c' = CHR ''}'' then Some (PyDict (dict_set acc k x), r4)
         else if c' = CHR '','' then parse_members n (skip_ws r4) (dict_set acc k x)
         else None)" if "parse_value n (skip_ws r2) = Some (x, r3)" for n
      using that s key sk1 sk3 by simp
    show ?thesis
    proof (cases "c' = CHR ''}''")
      case True
      then have r: "r = r4" "v = PyDict (dict_set acc k x)" using a step [OF pv] by auto
      have "parse_members n s acc = Some (v, r)" if "2 * (length s - length r) \<le> n" for n
      proof -
        from that s l0 l1 l2 l2' l3 r obtain j where j: "n = Suc j"
          "2 * (length (skip_ws r2) - length r3) \<le> j"
          by (cases n) auto
        then have "parse_value j (skip_ws r2) = Some (x, r3)" using st2 by (simp add: settled_def)
        from step [OF this] show ?thesis using j True r by simp
      qed
      then show ?thesis using s l0 l1 l2 l2' l3 r by (simp add: settled_def)
    next
      case False
      then have comma: "c' = CHR '',''" and
        rest: "parse_members m (skip_ws r4) (dict_set acc k x) = Some (v, r)"
        using a step [OF pv] by (auto split: if_splits)
      from ihm [OF rest] have l4: "length r < length (skip_ws r4)"
        and st4: "settled (\<lambda>n. parse_members n (skip_ws r4) (dict_set acc k x))
            (length (skip_ws r4) - length r) v r" by auto
      have l4': "length (skip_ws r4) \<le> length r4" by (rule length_skip_ws)
      have "parse_members n s acc = Some (v, r)" if "2 * (length s - length r) \<le> n" for n
      proof -
        from that s l0 l1 l2 l2' l3 l4 l4' obtain j where j: "n = Suc j"
          "2 * (length (skip_ws r2) - length r3) \<le> j"
          "2 * (length (skip_ws r4) - length r) \<le> j"
          by (cases n) auto
        then have "parse_value j (skip_ws r2) = Some (x, r3)"
          "parse_members j (skip_ws r4) (dict_set acc k x) = Some (v, r)"
          using st2 st4 by (simp_all add: settled_def)
        from step [OF this(1)] this(2) show ?thesis using j comma False by simp
      qed
      then show ?thesis using s l0 l1 l2 l2' l3 l4 l4' by (simp add: settled_def)
    qed
  qed
  show ?case using v e mm by blast
qed

text \<open>So the bound in \<open>json_loads\<close> loses no document.\<close>

theorem json_loads_any_fuel:
  "json_loads s = Some v \<longleftrightarrow> (\<exists>m r. parse_value m (skip_ws s) = Some (v, r) \<and> skip_ws r = [])"
proof
  assume "json_loads s = Some v"
  then obtain r where "parse_value (Suc (Suc (2 * length s))) (skip_ws s) = Some (v, r)" "skip_ws r = []"
    by (auto simp: json_loads_def simp del: parse_value.simps split: option.splits if_splits)
  then show "\<exists>m r. parse_value m (skip_ws s) = Some (v, r) \<and> skip_ws r = []"
    by blast
next
  assume "\<exists>m r. parse_value m (skip_ws s) = Some (v, r) \<and> skip_ws r = []"
  then obtain m r where p: "parse_value m (skip_ws s) = Some (v, r)" "skip_ws r = []" by blast
  from fuel_enough [of m] p(1)
  have "settled (\<lambda>n. parse_value n (skip_ws s)) (length (skip_ws s) - length r) v r" by blast
  moreover have "2 * (length (skip_ws s) - length r) \<le> 2 * length s + 2"
    using length_skip_ws [of s] by simp
  ultimately have "parse_value (2 * length s + 2) (skip_ws s) = Some (v, r)"
    unfolding settled_def by blast
  then show "json_loads s = Some v" using p(2) unfolding json_loads_def by simp
qed

section \<open>The round trip through \<open>json\<close>\<close>

lemma digit_char_is_digit: "k < 10 \<Longrightarrow> is_digit (digit_char k)"
proof -
  assume "k < 10"
  then have "k \<in> {0, 1, 2, 3, 4, 5, 6, 7, 8, 9}" by simp arith
  then show ?thesis by (auto simp: digit_char_def is_digit_def)
qed

lemma digit_char_val: "k < 10 \<Longrightarrow> (of_char (digit_char k) :: nat) - 48 = k"
proof -
  assume "k < 10"
  then have "k \<in> {0, 1, 2, 3, 4, 5, 6, 7, 8, 9}" by simp arith
  then show ?thesis by (auto simp: digit_char_def)
qed

lemma digit_char_zero: "k < 10 \<Longrightarrow> digit_char k = CHR ''0'' \<longleftrightarrow> k = 0"
proof -
  assume "k < 10"
  then have "k \<in> {0, 1, 2, 3, 4, 5, 6, 7, 8, 9}" by simp arith
  then show ?thesis by (auto simp: digit_char_def)
qed

lemma hex_val_digit_char: "k < 16 \<Longrightarrow> hex_val (digit_char k) = Some k"
proof -
  assume "k < 16"
  then have "k \<in> {0, 1, 2, 3, 4, 5, 6, 7, 8, 9, 10, 11, 12, 13, 14, 15}" by simp arith
  then show ?thesis by (auto simp: digit_char_def hex_val_def)
qed

declare string_of_nat.simps [simp del]

lemma string_of_nat_digits: "\<forall>c\<in>set (string_of_nat n). is_digit c"
proof (induction n rule: string_of_nat.induct)
  case (1 n)
  show ?case
  proof (cases "n < 10")
    case True
    then show ?thesis by (subst string_of_nat.simps) (simp add: digit_char_is_digit)
  next
    case False
    then show ?thesis using 1
      by (subst string_of_nat.simps) (simp add: digit_char_is_digit)
  qed
qed

lemma string_of_nat_nonempty: "string_of_nat n \<noteq> []"
  by (subst string_of_nat.simps) simp

lemma nat_of_digits_snoc: "nat_of_digits (ds @ [d]) = 10 * nat_of_digits ds + (of_char d - 48)"
  by (simp add: nat_of_digits_def)

lemma nat_of_digits_string_of_nat: "nat_of_digits (string_of_nat n) = n"
proof (induction n rule: string_of_nat.induct)
  case (1 n)
  show ?case
  proof (cases "n < 10")
    case True
    then show ?thesis
      by (subst string_of_nat.simps) (simp add: nat_of_digits_def digit_char_val)
  next
    case False
    then show ?thesis using 1
      by (subst string_of_nat.simps) (simp add: nat_of_digits_snoc digit_char_val)
  qed
qed

lemma hd_string_of_nat: "hd (string_of_nat n) = CHR ''0'' \<longleftrightarrow> n = 0"
proof (induction n rule: string_of_nat.induct)
  case (1 n)
  show ?case
  proof (cases "n < 10")
    case True
    then show ?thesis by (subst string_of_nat.simps) (simp add: digit_char_zero)
  next
    case False
    then have "n div 10 \<noteq> 0" by simp
    with False 1 show ?thesis
      by (subst string_of_nat.simps) (simp add: string_of_nat_nonempty)
  qed
qed

lemma takeWhile_digits:
  assumes "\<forall>c\<in>set ds. is_digit c" "closes rest"
  shows "takeWhile is_digit (ds @ rest) = ds" "dropWhile is_digit (ds @ rest) = rest"
proof -
  have r: "takeWhile is_digit rest = []" "dropWhile is_digit rest = rest"
    using assms(2) by (cases rest; auto simp: closes_def is_digit_def)+
  show "takeWhile is_digit (ds @ rest) = ds" using assms(1) r by simp
  show "dropWhile is_digit (ds @ rest) = rest" using assms(1) r by simp
qed

lemma closes_no_float: "closes rest \<Longrightarrow> \<not> starts_fraction rest \<and> \<not> starts_exponent rest"
  by (cases rest) (auto simp: closes_def starts_fraction_def starts_exponent_def split: list.splits)

lemma scan_int_nat:
  assumes "closes rest"
  shows "scan_int (string_of_nat n @ rest) = Some (int n, rest)"
proof -
  obtain d ds where s: "string_of_nat n = d # ds"
    using string_of_nat_nonempty [of n] by (cases "string_of_nat n") auto
  have dig: "\<forall>c\<in>set (d # ds). is_digit c" using string_of_nat_digits [of n] s by simp
  then have dd: "is_digit d" by simp
  then have nm: "d \<noteq> CHR ''-''" by (auto simp: is_digit_def)
  show ?thesis
  proof (cases "n = 0")
    case True
    then have "string_of_nat n = ''0''" by (subst string_of_nat.simps) (simp add: digit_char_def)
    with True show ?thesis by (simp add: scan_int_def)
  next
    case False
    then have nz: "d \<noteq> CHR ''0''" using hd_string_of_nat [of n] s by simp
    have tw: "takeWhile is_digit ((d # ds) @ rest) = d # ds" "dropWhile is_digit ((d # ds) @ rest) = rest"
      using takeWhile_digits [OF dig assms] by auto
    have "nat_of_digits (d # ds) = n" using nat_of_digits_string_of_nat [of n] s by simp
    then show ?thesis using nm nz dd tw
      by (simp add: scan_int_def s Let_def del: takeWhile.simps dropWhile.simps)
  qed
qed

lemma scan_int_neg:
  assumes "closes rest" "n \<noteq> 0"
  shows "scan_int (CHR ''-'' # string_of_nat n @ rest) = Some (- int n, rest)"
proof -
  obtain d ds where s: "string_of_nat n = d # ds"
    using string_of_nat_nonempty [of n] by (cases "string_of_nat n") auto
  have dig: "\<forall>c\<in>set (d # ds). is_digit c" using string_of_nat_digits [of n] s by simp
  then have dd: "is_digit d" by simp
  have nz: "d \<noteq> CHR ''0''" using hd_string_of_nat [of n] s assms(2) by simp
  have tw: "takeWhile is_digit ((d # ds) @ rest) = d # ds" "dropWhile is_digit ((d # ds) @ rest) = rest"
    using takeWhile_digits [OF dig assms(1)] by auto
  have "nat_of_digits (d # ds) = n" using nat_of_digits_string_of_nat [of n] s by simp
  then show ?thesis using nz dd tw
    by (simp add: scan_int_def s Let_def del: takeWhile.simps dropWhile.simps)
qed

lemma scan_number_int:
  assumes "closes rest"
  shows "scan_number (string_of_int i @ rest) = Some (PyInt i, rest)"
proof (cases "i < 0")
  case True
  then have "nat (- i) \<noteq> 0" by simp
  from scan_int_neg [OF assms this] True show ?thesis
    using closes_no_float [OF assms] by (simp add: scan_number_def string_of_int_def)
next
  case False
  from scan_int_nat [OF assms, of "nat i"] False show ?thesis
    using closes_no_float [OF assms] by (simp add: scan_number_def string_of_int_def)
qed

lemma hd_string_of_int:
  "string_of_int i \<noteq> [] \<and> (hd (string_of_int i) = CHR ''-'' \<or> is_digit (hd (string_of_int i)))"
proof (cases "i < 0")
  case True
  then show ?thesis by (simp add: string_of_int_def)
next
  case False
  obtain d ds where s: "string_of_nat (nat i) = d # ds"
    using string_of_nat_nonempty [of "nat i"] by (cases "string_of_nat (nat i)") auto
  then have "is_digit d" using string_of_nat_digits [of "nat i"] by simp
  with False s show ?thesis by (simp add: string_of_int_def)
qed

lemma of_char_less_256: "(of_char c :: nat) < 256"
proof -
  have "(of_char c :: nat) mod 256 < 256" by simp
  then show ?thesis by (simp only: of_char_mod_256)
qed

lemma hex4_hex2:
  assumes "n < 256"
  shows "hex4 (CHR ''0'' # CHR ''0'' # hex2 n @ r) = Some n"
proof -
  have a: "n div 16 < 16" using assms by simp
  have b: "n mod 16 < 16" by simp
  have z: "hex_val (CHR ''0'') = Some 0" by (simp add: hex_val_def)
  show ?thesis
    using hex_val_digit_char [OF a] hex_val_digit_char [OF b] z
    by (simp add: hex4_def hex2_def)
qed

lemma scan_string_escape: "scan_string (json_escape_char c @ r) = cons_result c (scan_string r)"
proof -
  consider (q) "c = quote_char" | (b) "c = backslash" | (n) "c = CHR 0x0A" | (r) "c = CHR 0x0D"
    | (t) "c = CHR 0x09" | (bs) "c = CHR 0x08" | (f) "c = CHR 0x0C"
    | (p) "c \<noteq> quote_char" "c \<noteq> backslash" "32 \<le> (of_char c :: nat)" "(of_char c :: nat) \<le> 126"
    | (u) "c \<noteq> quote_char" "c \<noteq> backslash" "c \<noteq> CHR 0x0A" "c \<noteq> CHR 0x0D" "c \<noteq> CHR 0x09"
          "c \<noteq> CHR 0x08" "c \<noteq> CHR 0x0C" "\<not> (32 \<le> (of_char c :: nat) \<and> (of_char c :: nat) \<le> 126)"
    by blast
  then show ?thesis
  proof cases
    case q
    then show ?thesis by (simp add: json_escape_char_def quote_char_def backslash_def unescape_def)
  next
    case b
    then show ?thesis by (simp add: json_escape_char_def quote_char_def backslash_def unescape_def)
  next
    case n
    then show ?thesis by (simp add: json_escape_char_def quote_char_def backslash_def unescape_def)
  next
    case r
    then show ?thesis by (simp add: json_escape_char_def quote_char_def backslash_def unescape_def)
  next
    case t
    then show ?thesis by (simp add: json_escape_char_def quote_char_def backslash_def unescape_def)
  next
    case bs
    then show ?thesis by (simp add: json_escape_char_def quote_char_def backslash_def unescape_def)
  next
    case f
    then show ?thesis by (simp add: json_escape_char_def quote_char_def backslash_def unescape_def)
  next
    case p
    then have e: "json_escape_char c = [c]"
      by (auto simp: json_escape_char_def)
    show ?thesis using p by (simp add: e)
  next
    case u
    then have e: "json_escape_char c = [backslash, CHR ''u'', CHR ''0'', CHR ''0''] @ hex2 (of_char c)"
      by (simp add: json_escape_char_def)
    have h: "hex4 (CHR ''0'' # CHR ''0'' # hex2 (of_char c) @ r) = Some (of_char c)"
      by (rule hex4_hex2 [OF of_char_less_256])
    have d: "drop 4 (CHR ''0'' # CHR ''0'' # hex2 (of_char c) @ r) = r"
      by (simp add: hex2_def)
    have bq: "backslash \<noteq> quote_char" by (simp add: backslash_def quote_char_def)
    show ?thesis
      unfolding e using h d bq of_char_less_256 [of c] by simp
  qed
qed

lemma scan_string_quoted:
  "scan_string (concat (map json_escape_char s) @ quote_char # rest) = Some (s, rest)"
proof (induction s)
  case Nil
  then show ?case by simp
next
  case (Cons c s)
  have "scan_string (concat (map json_escape_char (c # s)) @ quote_char # rest)
      = scan_string (json_escape_char c @ (concat (map json_escape_char s) @ quote_char # rest))"
    by simp
  also have "\<dots> = cons_result c (scan_string (concat (map json_escape_char s) @ quote_char # rest))"
    by (rule scan_string_escape)
  finally show ?case using Cons by (simp add: cons_result_def)
qed

lemma opens_append: "opens s \<Longrightarrow> opens (s @ r)"
  by (cases s) (auto simp: opens_def)

lemma skip_ws_opens: "opens s \<Longrightarrow> skip_ws s = s"
  by (cases s) (auto simp: opens_def skip_ws_def)

lemma skip_ws_space: "skip_ws (CHR '' '' # s) = skip_ws s"
  by (simp add: skip_ws_def is_ws_def)

lemma skip_ws_closer:
  "skip_ws (CHR '']'' # s) = CHR '']'' # s" "skip_ws (CHR ''}'' # s) = CHR ''}'' # s"
  "skip_ws (CHR '','' # s) = CHR '','' # s" "skip_ws (CHR '':'' # s) = CHR '':'' # s"
  by (simp_all add: skip_ws_def is_ws_def)

lemma opens_json_quote: "opens (json_quote k @ r)"
  by (simp add: json_quote_def opens_def quote_char_def is_ws_def)

lemma opens_json_encode: "opens (json_encode v)"
proof (cases v)
  case (PyInt i)
  obtain c r where s: "string_of_int i = c # r" "c = CHR ''-'' \<or> is_digit c"
    using hd_string_of_int [of i] by (cases "string_of_int i") auto
  then show ?thesis using PyInt by (auto simp: opens_def is_ws_def is_digit_def)
next
  case (PyStr s)
  then show ?thesis using opens_json_quote [of s "[]"] by simp
qed (auto simp: opens_def is_ws_def)

lemma closes_simps [simp]:
  "closes []" "closes (CHR '','' # r)" "closes (CHR '']'' # r)" "closes (CHR ''}'' # r)"
  by (simp_all add: closes_def)

lemma parse_value_atom:
  "parse_value (Suc n) (''null'' @ rest) = Some (PyNone, rest)"
  "parse_value (Suc n) (''true'' @ rest) = Some (PyBool True, rest)"
  "parse_value (Suc n) (''false'' @ rest) = Some (PyBool False, rest)"
  by (simp_all add: quote_char_def)

lemma parse_value_int:
  assumes "closes rest"
  shows "parse_value (Suc n) (string_of_int i @ rest) = Some (PyInt i, rest)"
proof -
  obtain c r where s: "string_of_int i = c # r" "c = CHR ''-'' \<or> is_digit c"
    using hd_string_of_int [of i] by (cases "string_of_int i") auto
  have c: "c \<noteq> quote_char" "c \<noteq> CHR ''{''" "c \<noteq> CHR ''[''" "c \<noteq> CHR ''n''" "c \<noteq> CHR ''t''" "c \<noteq> CHR ''f''"
    using s(2) by (auto simp: quote_char_def is_digit_def)
  have "parse_value (Suc n) (c # r @ rest) = scan_number (c # r @ rest)"
    using c by simp
  then show ?thesis using scan_number_int [OF assms, of i] s by simp
qed

lemma parse_value_str:
  "parse_value (Suc n) (json_quote s @ rest) = Some (PyStr s, rest)"
  by (simp add: json_quote_def scan_string_quoted)

lemma parsesD:
  "parses v \<Longrightarrow> weight v \<le> n \<Longrightarrow> closes rest \<Longrightarrow> parse_value n (json_encode v @ rest) = Some (v, rest)"
  by (simp add: parses_def)

lemma parse_elements_join:
  assumes "\<forall>x\<in>set xs. parses x" "xs \<noteq> []" "sum_list (map (\<lambda>x. Suc (weight x)) xs) \<le> n"
  shows "parse_elements n (join '', '' (map json_encode xs) @ CHR '']'' # rest) acc
           = Some (PyList (acc @ xs), rest)"
  using assms
proof (induction xs arbitrary: n acc)
  case Nil
  then show ?case by simp
next
  case (Cons x xs)
  from Cons.prems(3) obtain m where n: "n = Suc m" "weight x \<le> m"
    by (cases n) auto
  have px: "parses x" using Cons.prems(1) by simp
  show ?case
  proof (cases xs)
    case Nil
    have "parse_value m (json_encode x @ CHR '']'' # rest) = Some (x, CHR '']'' # rest)"
      by (rule parsesD [OF px n(2)]) simp
    then show ?thesis using Nil n by (simp add: skip_ws_closer)
  next
    case (Cons y ys)
    let ?tail = "join '', '' (map json_encode xs) @ CHR '']'' # rest"
    have j: "join '', '' (map json_encode (x # xs)) @ CHR '']'' # rest
        = json_encode x @ CHR '','' # CHR '' '' # ?tail"
      using Cons by simp
    have o: "opens ?tail"
      using Cons opens_json_encode [of y] by (cases ys) (auto intro: opens_append)
    have v: "parse_value m (json_encode x @ CHR '','' # CHR '' '' # ?tail)
        = Some (x, CHR '','' # CHR '' '' # ?tail)"
      by (rule parsesD [OF px n(2)]) simp
    have w: "sum_list (map (\<lambda>x. Suc (weight x)) xs) \<le> m"
      using Cons.prems(3) n by simp
    have "parse_elements m ?tail (acc @ [x]) = Some (PyList ((acc @ [x]) @ xs), rest)"
      using Cons.prems(1) Cons w by (intro Cons.IH) auto
    then show ?thesis
      unfolding j n(1)
      by (simp add: v skip_ws_closer skip_ws_space skip_ws_opens [OF o])
  qed
qed

lemma dict_set_fresh: "k \<notin> fst ` set acc \<Longrightarrow> dict_set acc k v = acc @ [(k, v)]"
  by (induction acc) auto

lemma parse_members_key:
  "parse_members (Suc m) (json_quote k @ CHR '':'' # CHR '' '' # r) acc =
     (case parse_value m (skip_ws r) of
        None \<Rightarrow> None
      | Some (v, r3) \<Rightarrow>
          (case skip_ws r3 of
             [] \<Rightarrow> None
           | c' # r4 \<Rightarrow>
               if c' = CHR ''}'' then Some (PyDict (dict_set acc k v), r4)
               else if c' = CHR '','' then parse_members m (skip_ws r4) (dict_set acc k v)
               else None))"
  by (simp add: json_quote_def scan_string_quoted skip_ws_closer skip_ws_space)

lemma parse_members_join:
  assumes "\<forall>kv\<in>set kvs. parses (snd kv)" "kvs \<noteq> []"
    "sum_list (map (\<lambda>kv. Suc (weight (snd kv))) kvs) \<le> n"
    "distinct (map fst (acc @ kvs))"
  shows "parse_members n (join '', '' (map member_text kvs) @ CHR ''}'' # rest) acc
           = Some (PyDict (acc @ kvs), rest)"
  using assms
proof (induction kvs arbitrary: n acc)
  case Nil
  then show ?case by simp
next
  case (Cons kv kvs)
  obtain k x where kv: "kv = (k, x)" by (cases kv)
  from Cons.prems(3) obtain m where n: "n = Suc m" "weight x \<le> m"
    by (cases n) (auto simp: kv)
  have px: "parses x" using Cons.prems(1) kv by simp
  have fresh: "k \<notin> fst ` set acc" using Cons.prems(4) kv by auto
  have key: "scan_string (concat (map json_escape_char k) @ quote_char # r) = Some (k, r)" for r
    by (rule scan_string_quoted)
  show ?case
  proof (cases kvs)
    case Nil
    have "parse_value m (json_encode x @ CHR ''}'' # rest) = Some (x, CHR ''}'' # rest)"
      by (rule parsesD [OF px n(2)]) simp
    then show ?thesis using Nil n kv
      by (simp add: parse_members_key skip_ws_closer del: parse_members.simps
          add: skip_ws_opens [OF opens_append [OF opens_json_encode]] dict_set_fresh [OF fresh])
  next
    case (Cons kv' kvs')
    let ?tail = "join '', '' (map member_text kvs) @ CHR ''}'' # rest"
    have j: "join '', '' (map member_text (kv # kvs)) @ CHR ''}'' # rest
        = json_quote k @ CHR '':'' # CHR '' '' # json_encode x @ CHR '','' # CHR '' '' # ?tail"
      using Cons kv by simp
    have o: "opens ?tail"
      using Cons opens_json_quote by (cases kvs') auto
    have v: "parse_value m (json_encode x @ CHR '','' # CHR '' '' # ?tail)
        = Some (x, CHR '','' # CHR '' '' # ?tail)"
      by (rule parsesD [OF px n(2)]) simp
    have w: "sum_list (map (\<lambda>kv. Suc (weight (snd kv))) kvs) \<le> m"
      using Cons.prems(3) n by simp
    have d: "distinct (map fst ((acc @ [(k, x)]) @ kvs))"
      using Cons.prems(4) kv by simp
    have "parse_members m ?tail (acc @ [(k, x)]) = Some (PyDict ((acc @ [(k, x)]) @ kvs), rest)"
      using Cons.prems(1) Cons w d by (intro Cons.IH) auto
    then show ?thesis
      unfolding j n(1) using kv v o
      by (simp add: parse_members_key skip_ws_closer skip_ws_space skip_ws_opens
          skip_ws_opens [OF opens_append [OF opens_json_encode]] dict_set_fresh [OF fresh]
          del: parse_members.simps)
  qed
qed

lemma parses_wf: "wf_val v \<Longrightarrow> parses v"
proof (induction v)
  case PyNone
  show ?case unfolding parses_def
  proof (intro allI impI)
    fix n rest assume "weight PyNone \<le> n"
    then obtain m where "n = Suc m" by (cases n) auto
    then show "parse_value n (json_encode PyNone @ rest) = Some (PyNone, rest)"
      using parse_value_atom(1) by simp
  qed
next
  case (PyBool b)
  show ?case unfolding parses_def
  proof (intro allI impI)
    fix n rest assume "weight (PyBool b) \<le> n"
    then obtain m where "n = Suc m" by (cases n) auto
    then show "parse_value n (json_encode (PyBool b) @ rest) = Some (PyBool b, rest)"
      using parse_value_atom(2,3) by (cases b) simp_all
  qed
next
  case (PyInt i)
  show ?case unfolding parses_def
  proof (intro allI impI)
    fix n rest assume "weight (PyInt i) \<le> n" and c: "closes rest"
    then obtain m where "n = Suc m" by (cases n) auto
    then show "parse_value n (json_encode (PyInt i) @ rest) = Some (PyInt i, rest)"
      using parse_value_int [OF c] by simp
  qed
next
  case (PyStr s)
  show ?case unfolding parses_def
  proof (intro allI impI)
    fix n rest assume "weight (PyStr s) \<le> n"
    then obtain m where "n = Suc m" by (cases n) auto
    then show "parse_value n (json_encode (PyStr s) @ rest) = Some (PyStr s, rest)"
      using parse_value_str by simp
  qed
next
  case (PyList xs)
  then have ih: "\<forall>x\<in>set xs. parses x" by simp
  show ?case unfolding parses_def
  proof (intro allI impI)
    fix n rest assume w: "weight (PyList xs) \<le> n"
    then obtain m where n: "n = Suc m" "sum_list (map (\<lambda>x. Suc (weight x)) xs) \<le> m"
      by (cases n) auto
    show "parse_value n (json_encode (PyList xs) @ rest) = Some (PyList xs, rest)"
    proof (cases xs)
      case Nil
      then show ?thesis using n by (simp add: quote_char_def skip_ws_closer)
    next
      case (Cons y ys)
      let ?t = "join '', '' (map json_encode xs) @ CHR '']'' # rest"
      have o: "opens ?t"
        using Cons opens_json_encode [of y] by (cases ys) (auto intro: opens_append)
      then obtain c r where t: "?t = c # r" "c \<noteq> CHR '']''"
        by (cases ?t) (auto simp: opens_def)
      have "parse_elements m ?t [] = Some (PyList ([] @ xs), rest)"
        using ih Cons n(2) by (intro parse_elements_join) auto
      then have "parse_elements m (c # r) [] = Some (PyList xs, rest)"
        using t(1) by simp
      moreover have "skip_ws ?t = c # r" using skip_ws_opens [OF o] t(1) by simp
      ultimately show ?thesis using n(1) t(2)
        by (simp add: quote_char_def)
    qed
  qed
next
  case (PyDict kvs)
  have ih: "\<forall>kv\<in>set kvs. parses (snd kv)"
  proof
    fix kv assume "kv \<in> set kvs"
    moreover have "snd kv \<in> Basic_BNFs.snds kv" by (cases kv) simp
    moreover have "wf_val (snd kv)" using PyDict.prems \<open>kv \<in> set kvs\<close> by simp
    ultimately show "parses (snd kv)" using PyDict.IH by blast
  qed
  have d: "distinct (map fst kvs)" using PyDict.prems by simp
  show ?case unfolding parses_def
  proof (intro allI impI)
    fix n rest assume w: "weight (PyDict kvs) \<le> n"
    then obtain m where n: "n = Suc m" "sum_list (map (\<lambda>kv. Suc (weight (snd kv))) kvs) \<le> m"
      by (cases n) auto
    show "parse_value n (json_encode (PyDict kvs) @ rest) = Some (PyDict kvs, rest)"
    proof (cases kvs)
      case Nil
      then show ?thesis using n by (simp add: quote_char_def skip_ws_closer)
    next
      case (Cons y ys)
      let ?t = "join '', '' (map member_text kvs) @ CHR ''}'' # rest"
      have o: "opens ?t"
        using Cons opens_json_quote by (cases ys) auto
      then obtain c r where t: "?t = c # r" "c \<noteq> CHR ''}''"
        by (cases ?t) (auto simp: opens_def)
      have "parse_members m ?t [] = Some (PyDict ([] @ kvs), rest)"
        using ih Cons n(2) d by (intro parse_members_join) auto
      then have "parse_members m (c # r) [] = Some (PyDict kvs, rest)"
        using t(1) by simp
      moreover have "skip_ws ?t = c # r" using skip_ws_opens [OF o] t(1) by simp
      ultimately show ?thesis using n(1) t(2)
        by (simp add: quote_char_def del: parse_members.simps)
    qed
  qed
qed

lemma length_join_ge:
  assumes "\<forall>x\<in>set xs. g x \<le> length (f x)" "xs \<noteq> []"
  shows "sum_list (map (\<lambda>x. Suc (g x)) xs) \<le> Suc (length (join '', '' (map f xs)))"
  using assms
proof (induction xs)
  case Nil
  then show ?case by simp
next
  case (Cons x xs)
  show ?case
  proof (cases xs)
    case Nil
    then show ?thesis using Cons.prems by simp
  next
    case (Cons y ys)
    with Cons.IH Cons.prems show ?thesis by auto
  qed
qed

lemma weight_le_length: "weight v \<le> length (json_encode v)"
proof (induction v)
  case (PyInt i)
  then show ?case using hd_string_of_int [of i] by (cases "string_of_int i") auto
next
  case (PyStr s)
  then show ?case by (simp add: json_quote_def)
next
  case (PyList xs)
  show ?case
  proof (cases "xs = []")
    case True
    then show ?thesis by simp
  next
    case False
    from length_join_ge [of xs weight json_encode, OF _ False] PyList
    show ?thesis by simp
  qed
next
  case (PyDict kvs)
  show ?case
  proof (cases "kvs = []")
    case True
    then show ?thesis by simp
  next
    case False
    have "\<forall>kv\<in>set kvs. weight (snd kv) \<le> length (member_text kv)"
    proof
      fix kv assume k: "kv \<in> set kvs"
      moreover have "snd kv \<in> Basic_BNFs.snds kv" by (cases kv) simp
      ultimately have "weight (snd kv) \<le> length (json_encode (snd kv))" using PyDict by blast
      then show "weight (snd kv) \<le> length (member_text kv)" by simp
    qed
    from length_join_ge [of kvs "\<lambda>kv. weight (snd kv)" member_text, OF this False]
    show ?thesis by simp
  qed
qed simp_all

text \<open>What \<open>json.dumps\<close> writes, \<open>json.loads\<close> reads back as the same value.\<close>

theorem json_roundtrip:
  assumes "wf_val v"
  shows "json_loads (json_encode v) = Some v"
proof -
  have "weight v \<le> 2 * length (json_encode v) + 2"
    using weight_le_length [of v] by simp
  from parsesD [OF parses_wf [OF assms] this, of "[]"]
  have p: "parse_value (2 * length (json_encode v) + 2) (json_encode v) = Some (v, [])"
    by (simp only: append_Nil2 closes_simps)
  have s: "skip_ws (json_encode v) = json_encode v"
    by (rule skip_ws_opens [OF opens_json_encode])
  have e: "skip_ws [] = []" by (simp add: skip_ws_def)
  show ?thesis unfolding json_loads_def s p by (simp add: e)
qed

text \<open>
  So \<open>set\<close> followed by \<open>get\<close> before the ttl has elapsed returns every value that is
  not a string as it went in, and a string as \<open>json.loads\<close> reads it, or as it is when
  \<open>json.loads\<close> rejects it.
\<close>

lemma set_then_get_roundtrip:
  assumes "faults w = []"
    and "fst (get_cache_assistant_id w) = Inr aid"
    and "\<forall>m\<in>set (memories w aid). has_cache_key m key \<longrightarrow> id_assigned m"
    and "\<forall>s. v \<noteq> PyStr s"
    and "wf_val v"
    and "t1 - t0 < ttl_or_default ttl"
  shows "fst (cache_get json_loads key ttl' t1 (snd (cache_set json_dumps key v ttl t0 w))) = Inr v"
proof -
  have enc: "encode_value json_dumps v = Inr (json_encode v)"
    using assms(4) by (cases v) (simp_all add: encode_value_def json_dumps_def)
  have "decode_content json_loads (json_encode v) = v"
    using json_roundtrip [OF assms(5)] by (simp add: decode_content_def)
  with set_then_get_valid [OF assms(1,2,3) enc assms(6), of json_loads ttl'] show ?thesis by simp
qed

lemma set_then_get_string:
  assumes "faults w = []"
    and "fst (get_cache_assistant_id w) = Inr aid"
    and "\<forall>m\<in>set (memories w aid). has_cache_key m key \<longrightarrow> id_assigned m"
    and "t1 - t0 < ttl_or_default ttl"
  shows "fst (cache_get json_loads key ttl' t1 (snd (cache_set json_dumps key (PyStr s) ttl t0 w)))
           = Inr (case json_loads s of Some u \<Rightarrow> u | None \<Rightarrow> PyStr s)"
proof -
  have enc: "encode_value json_dumps (PyStr s) = Inr s"
    by (simp add: encode_value_def)
  from set_then_get_valid [OF assms(1,2,3) enc assms(4), of json_loads ttl'] show ?thesis
    by (simp add: decode_content_def)
qed

end
